theory Spec2Isabelle
  imports Main
begin

section \<open>Threshold ladder (check_and_notify_price_threshold)\<close>

text \<open>
  The global dictionary LAST_NOTIFIED_PRICE has the keys price, thresholds and notified.
  Prices and thresholds are modelled as Python integers. The function mutates the
  dictionary in place; the model takes the state and returns the new one, together with
  the list of thresholds for which the notification block (lines 229 to 236) ran, one
  entry per executed block, in the order of execution. The notification sink
  (bot.send_message) is an external collaborator and is taken to accept every message.
\<close>

record ladder =
  price :: int
  thresholds :: "int list"
  notified :: "int list"

definition next_threshold :: "int \<Rightarrow> int" where
  "next_threshold current_price = (current_price div 1000 + 1) * 1000"

text \<open>
  The for loop of lines 227 to 236 over the thresholds list: the first component is the
  notified list after the loop, the second the events emitted.
\<close>

fun notify_loop :: "int \<Rightarrow> int list \<Rightarrow> int list \<Rightarrow> int list \<times> int list" where
  "notify_loop current_price [] ntf = (ntf, [])"
| "notify_loop current_price (threshold # rest) ntf =
     (if current_price \<ge> threshold \<and> threshold \<notin> set ntf
      then (case notify_loop current_price rest (ntf @ [threshold]) of
              (ntf', events) \<Rightarrow> (ntf', threshold # events))
      else notify_loop current_price rest ntf)"

definition check_and_notify_price_threshold :: "int \<Rightarrow> ladder \<Rightarrow> int list \<times> ladder" where
  "check_and_notify_price_threshold current_price st =
     (let nt = next_threshold current_price;
          ths = (if nt \<notin> set (thresholds st) then sort (thresholds st @ [nt])
                 else thresholds st)
      in case notify_loop current_price ths (notified st) of
           (ntf', events) \<Rightarrow>
             (events, \<lparr>price = current_price, thresholds = ths, notified = ntf'\<rparr>))"

text \<open>
  The price loop calls the function once per observed price; \<open>check_prices\<close> runs it
  over a list of prices and collects the events of every call.
\<close>

fun check_prices :: "int list \<Rightarrow> ladder \<Rightarrow> int list list \<times> ladder" where
  "check_prices [] st = ([], st)"
| "check_prices (p # ps) st =
     (case check_and_notify_price_threshold p st of
        (events, st') \<Rightarrow> (case check_prices ps st' of (evs, st'') \<Rightarrow> (events # evs, st'')))"

definition ladder_inv :: "ladder \<Rightarrow> bool" where
  "ladder_inv st \<longleftrightarrow> set (notified st) \<subseteq> set (thresholds st) \<and> sorted_wrt (<) (thresholds st)"

definition empty_ladder :: ladder where
  "empty_ladder = \<lparr>price = 0, thresholds = [], notified = []\<rparr>"


section \<open>Retry with exponential backoff (api_request_with_backoff)\<close>

text \<open>
  Python exceptions are values. \<open>ApiException\<close> carries the \<open>error_code\<close> attribute
  that the wrapper reads; the other constructors carry the message.
\<close>

datatype py_exception =
    ApiException int
  | Exception string
  | ValueError string
  | OverflowError string
  | RequestException string

text \<open>
  The wrapped operation \<open>func\<close> is a Python callable without arguments that acts on
  the rest of the program state: a function from a state to its outcome (\<open>Inl\<close> a
  raised exception, \<open>Inr\<close> the returned value) and the state it leaves behind. The
  wrapper returns, besides the outcome and the state, the trace of what it did: one
  \<open>Invoke\<close> per call of \<open>func\<close> and one \<open>Sleep d\<close> per completed \<open>time.sleep(d)\<close>,
  in order.
\<close>

datatype event = Invoke | Sleep int

fun invocations :: "event list \<Rightarrow> nat" where
  "invocations [] = 0"
| "invocations (Invoke # tr) = Suc (invocations tr)"
| "invocations (Sleep d # tr) = invocations tr"

fun sleeps :: "event list \<Rightarrow> int list" where
  "sleeps [] = []"
| "sleeps (Invoke # tr) = sleeps tr"
| "sleeps (Sleep d # tr) = d # sleeps tr"

text \<open>
  The while loop of lines 61 to 70, started with the current value of \<open>retries\<close>.
  An \<open>ApiException\<close> whose error code is 502 is slept on and retried; every other
  exception leaves the function at once (the bare \<open>raise\<close> of line 70, or no handler at
  all). \<open>time.sleep\<close> raises ValueError on a negative argument. When the loop condition
  fails, line 71 raises \<open>Exception("Max retries reached")\<close>.
\<close>

function api_request_loop ::
  "('s \<Rightarrow> (py_exception + 'a) \<times> 's) \<Rightarrow> int \<Rightarrow> int \<Rightarrow> int \<Rightarrow> 's
     \<Rightarrow> (py_exception + 'a) \<times> 's \<times> event list" where
  "api_request_loop func max_retries initial_delay retries s =
     (if retries < max_retries then
        (let r = func s in
         if fst r = Inl (ApiException 502) then
           (let delay = initial_delay * 2 ^ nat retries in
            if delay < 0
            then (Inl (ValueError ''sleep length must be non-negative''), snd r, [Invoke])
            else (let r' = api_request_loop func max_retries initial_delay (retries + 1) (snd r)
                  in (fst r', fst (snd r'), Invoke # Sleep delay # snd (snd r'))))
         else (fst r, snd r, [Invoke]))
      else (Inl (Exception ''Max retries reached''), s, []))"
  by pat_completeness auto
termination
  by (relation "measure (\<lambda>(func, max_retries, initial_delay, retries, s).
        nat (max_retries - retries))") auto

declare api_request_loop.simps [simp del]

definition api_request_with_backoff ::
  "('s \<Rightarrow> (py_exception + 'a) \<times> 's) \<Rightarrow> int \<Rightarrow> int \<Rightarrow> 's
     \<Rightarrow> (py_exception + 'a) \<times> 's \<times> event list" where
  "api_request_with_backoff func max_retries initial_delay s =
     api_request_loop func max_retries initial_delay 0 s"

text \<open>
  Three operations on a call counter, used to run the wrapper on concrete inputs: one
  that answers 502 on its first two calls and then returns 42, one that always raises a
  malformed-response error, and one that always answers 502.
\<close>

definition flaky_twice :: "nat \<Rightarrow> (py_exception + int) \<times> nat" where
  "flaky_twice n = (if n < 2 then Inl (ApiException 502) else Inr 42, Suc n)"



section \<open>Time-bounded caches (get_mempool_data, get_coingecko_price_change, get_bitcoin_price)\<close>

text \<open>
  JSON numbers are modelled as integers. The dictionary returned by \<open>fetch_data\<close> of
  \<open>get_mempool_data\<close> has the keys price_eur, price_usd and fee. The dictionary under the
  key bitcoin that \<open>get_bitcoin_price\<close> returns is a record of optional fields: a field
  is \<open>None\<close> when the key is absent (or, for the 24 hour change, when it holds the
  string N/A).
\<close>

record mempool_data =
  price_eur :: int
  price_usd :: int
  fee :: int

record bitcoin_data =
  eur :: "int option"
  usd :: "int option"
  eur_24h_change :: "int option"
  suggested_fee :: "int option"

text \<open>
  A cache dictionary has the keys data and last_updated, both \<open>None\<close> at start. Time
  stamps are \<open>datetime\<close> values, modelled as microseconds since a fixed origin, the
  resolution of \<open>datetime\<close>; \<open>timedelta_seconds n\<close> is \<open>timedelta(seconds=n)\<close>.
\<close>

record 'a cache =
  data :: "'a option"
  last_updated :: "int option"

definition timedelta_seconds :: "int \<Rightarrow> int" where
  "timedelta_seconds n = n * 1000000"

text \<open>
  The three HTTP endpoints are external. Each is a script of outcomes, one per request:
  a fetch closure takes the next outcome of its endpoint (a request that finds the script
  empty fails with a connection error) and records the request in \<open>fetch_log\<close>. The
  log is not part of the program; it counts the invocations of the fetch closures.
\<close>

datatype endpoint = MempoolFetch | ChangeFetch | PriceFetch

record sys =
  MEMPOOL_CACHE :: "mempool_data cache"
  BITCOIN_CACHE :: "bitcoin_data cache"
  mempool_api :: "(py_exception + mempool_data) list"
  change_api :: "(py_exception + int) list"
  price_api :: "(py_exception + bitcoin_data) list"
  fetch_log :: "endpoint list"

text \<open>The closure \<open>fetch_data\<close> of \<open>get_mempool_data\<close> (lines 127 to 140).\<close>

definition mempool_fetch_data :: "sys \<Rightarrow> (py_exception + mempool_data) \<times> sys" where
  "mempool_fetch_data s =
     (case mempool_api s of
        [] \<Rightarrow> (Inl (RequestException ''connection failed''),
               s\<lparr>fetch_log := fetch_log s @ [MempoolFetch]\<rparr>)
      | r # rs \<Rightarrow> (r, s\<lparr>mempool_api := rs, fetch_log := fetch_log s @ [MempoolFetch]\<rparr>))"

text \<open>The closure \<open>fetch_data\<close> of \<open>get_coingecko_price_change\<close> (lines 157 to 163).\<close>

definition change_fetch_data :: "sys \<Rightarrow> (py_exception + int) \<times> sys" where
  "change_fetch_data s =
     (case change_api s of
        [] \<Rightarrow> (Inl (RequestException ''connection failed''),
               s\<lparr>fetch_log := fetch_log s @ [ChangeFetch]\<rparr>)
      | r # rs \<Rightarrow> (r, s\<lparr>change_api := rs, fetch_log := fetch_log s @ [ChangeFetch]\<rparr>))"

text \<open>The closure \<open>fetch_coingecko\<close> of \<open>get_bitcoin_price\<close> (lines 202 to 205).\<close>

definition fetch_coingecko :: "sys \<Rightarrow> (py_exception + bitcoin_data) \<times> sys" where
  "fetch_coingecko s =
     (case price_api s of
        [] \<Rightarrow> (Inl (RequestException ''connection failed''),
               s\<lparr>fetch_log := fetch_log s @ [PriceFetch]\<rparr>)
      | r # rs \<Rightarrow> (r, s\<lparr>price_api := rs, fetch_log := fetch_log s @ [PriceFetch]\<rparr>))"

text \<open>
  The freshness test of lines 121 and 178:
  \<open>CACHE['last_updated'] and (current_time - CACHE['last_updated']) < timedelta(seconds=60)\<close>.
\<close>

definition cache_fresh :: "'a cache \<Rightarrow> int \<Rightarrow> bool" where
  "cache_fresh c current_time =
     (case last_updated c of
        None \<Rightarrow> False
      | Some lu \<Rightarrow> current_time - lu < timedelta_seconds 60)"

text \<open>
  \<open>get_mempool_data\<close>: \<open>current_time\<close> is the value that \<open>datetime.now()\<close> returns at
  line 119. The \<open>except Exception\<close> of line 146 turns every exception of the wrapped
  fetch into the return value \<open>None\<close>, so the outcome is always a returned value.
\<close>

definition get_mempool_data :: "int \<Rightarrow> sys \<Rightarrow> (py_exception + mempool_data option) \<times> sys" where
  "get_mempool_data current_time s =
     (if cache_fresh (MEMPOOL_CACHE s) current_time
      then (Inr (data (MEMPOOL_CACHE s)), s)
      else (case api_request_with_backoff mempool_fetch_data 5 1 s of
              (Inr d, s', tr) \<Rightarrow>
                (Inr (Some d),
                 s'\<lparr>MEMPOOL_CACHE := \<lparr>data = Some d, last_updated = Some current_time\<rparr>\<rparr>)
            | (Inl e, s', tr) \<Rightarrow> (Inr None, s')))"

definition get_coingecko_price_change :: "sys \<Rightarrow> (py_exception + int option) \<times> sys" where
  "get_coingecko_price_change s =
     (case api_request_with_backoff change_fetch_data 5 1 s of
        (Inr price_change, s', tr) \<Rightarrow> (Inr (Some price_change), s')
      | (Inl e, s', tr) \<Rightarrow> (Inr None, s'))"

text \<open>
  \<open>get_bitcoin_price\<close>: \<open>current_time\<close> is the clock value read at line 176 and
  \<open>mempool_time\<close> the one that the nested call of \<open>get_mempool_data\<close> reads. Any
  exception inside the \<open>try\<close> block (lines 184 to 211) is caught at line 213 and the
  function returns \<open>None\<close>, leaving BITCOIN_CACHE as it was. In the fallback branch
  the log line 208 formats \<open>bitcoin_data['bitcoin']['eur']\<close>, which raises when the
  key is absent.
\<close>

definition get_bitcoin_price ::
  "int \<Rightarrow> int \<Rightarrow> sys \<Rightarrow> (py_exception + bitcoin_data option) \<times> sys" where
  "get_bitcoin_price current_time mempool_time s =
     (if cache_fresh (BITCOIN_CACHE s) current_time
      then (Inr (data (BITCOIN_CACHE s)), s)
      else
        (case api_request_with_backoff (get_mempool_data mempool_time) 5 1 s of
           (Inl e, s1, tr1) \<Rightarrow> (Inr None, s1)
         | (Inr mempool, s1, tr1) \<Rightarrow>
             (case api_request_with_backoff get_coingecko_price_change 5 1 s1 of
                (Inl e, s2, tr2) \<Rightarrow> (Inr None, s2)
              | (Inr price_change, s2, tr2) \<Rightarrow>
                  (case mempool of
                     Some md \<Rightarrow>
                       (let bitcoin = \<lparr>eur = Some (price_eur md), usd = Some (price_usd md),
                                        eur_24h_change = price_change,
                                        suggested_fee = Some (fee md)\<rparr>
                        in (Inr (Some bitcoin),
                            s2\<lparr>BITCOIN_CACHE :=
                                 \<lparr>data = Some bitcoin, last_updated = Some current_time\<rparr>\<rparr>))
                   | None \<Rightarrow>
                       (case api_request_with_backoff fetch_coingecko 5 1 s2 of
                          (Inl e, s3, tr3) \<Rightarrow> (Inr None, s3)
                        | (Inr bitcoin, s3, tr3) \<Rightarrow>
                            (case eur bitcoin of
                               None \<Rightarrow> (Inr None, s3)
                             | Some p \<Rightarrow>
                                 (Inr (Some bitcoin),
                                  s3\<lparr>BITCOIN_CACHE :=
                                       \<lparr>data = Some bitcoin,
                                        last_updated = Some current_time\<rparr>\<rparr>)))))))"

text \<open>A start state: both caches empty, no request made, the endpoints as given.\<close>

definition start_sys ::
  "(py_exception + mempool_data) list \<Rightarrow> (py_exception + int) list
     \<Rightarrow> (py_exception + bitcoin_data) list \<Rightarrow> sys" where
  "start_sys ms cs ps =
     \<lparr>MEMPOOL_CACHE = \<lparr>data = None, last_updated = None\<rparr>,
      BITCOIN_CACHE = \<lparr>data = None, last_updated = None\<rparr>,
      mempool_api = ms, change_api = cs, price_api = ps, fetch_log = []\<rparr>"

text \<open>
  A state whose two caches hold values fetched at time 0 and whose endpoints all fail:
  the next Mempool request times out, the other scripts are empty.
\<close>

definition stale_sys :: sys where
  "stale_sys =
     \<lparr>MEMPOOL_CACHE = \<lparr>data = Some \<lparr>price_eur = 30000, price_usd = 33000, fee = 12\<rparr>,
                        last_updated = Some 0\<rparr>,
      BITCOIN_CACHE = \<lparr>data = Some \<lparr>eur = Some 30000, usd = Some 33000,
                                      eur_24h_change = Some 2, suggested_fee = Some 12\<rparr>,
                        last_updated = Some 0\<rparr>,
      mempool_api = [Inl (RequestException ''timeout'')], change_api = [], price_api = [],
      fetch_log = []\<rparr>"

text \<open>
  A state whose two caches hold values fetched at time 0 and whose endpoints answer: the
  next Mempool request returns new prices and the next 24 hour change request returns 3.
\<close>

definition warm_sys :: sys where
  "warm_sys =
     \<lparr>MEMPOOL_CACHE = \<lparr>data = Some \<lparr>price_eur = 30000, price_usd = 33000, fee = 12\<rparr>,
                        last_updated = Some 0\<rparr>,
      BITCOIN_CACHE = \<lparr>data = Some \<lparr>eur = Some 30000, usd = Some 33000,
                                      eur_24h_change = Some 2, suggested_fee = Some 12\<rparr>,
                        last_updated = Some 0\<rparr>,
      mempool_api = [Inr \<lparr>price_eur = 31000, price_usd = 34000, fee = 15\<rparr>],
      change_api = [Inr 3], price_api = [], fetch_log = []\<rparr>"

section \<open>Next occurrence of a yearly date (get_next_birthday, check_next_birthday)\<close>

text \<open>
  A \<open>datetime.date\<close> has the fields year, month and day; the constructor accepts the
  years 1 to 9999 and the days that the month has in that year, and raises ValueError
  otherwise. Comparison of dates is the lexicographic order of (year, month, day); the
  difference of two dates in days is the difference of their proleptic Gregorian
  ordinals (\<open>toordinal\<close>, with day 1 being 0001-01-01).
\<close>

record date =
  year :: int
  month :: int
  day :: int

definition is_leap :: "int \<Rightarrow> bool" where
  "is_leap y \<longleftrightarrow> y mod 4 = 0 \<and> (y mod 100 \<noteq> 0 \<or> y mod 400 = 0)"

definition days_in_month :: "int \<Rightarrow> int \<Rightarrow> int" where
  "days_in_month y m =
     (if m = 2 then (if is_leap y then 29 else 28)
      else if m = 4 \<or> m = 6 \<or> m = 9 \<or> m = 11 then 30 else 31)"

definition valid_date :: "int \<Rightarrow> int \<Rightarrow> int \<Rightarrow> bool" where
  "valid_date y m d \<longleftrightarrow> 1 \<le> y \<and> y \<le> 9999 \<and> 1 \<le> m \<and> m \<le> 12 \<and> 1 \<le> d \<and> d \<le> days_in_month y m"

definition days_before_year :: "int \<Rightarrow> int" where
  "days_before_year y = (y - 1) * 365 + (y - 1) div 4 - (y - 1) div 100 + (y - 1) div 400"

definition days_before_month :: "int \<Rightarrow> int \<Rightarrow> int" where
  "days_before_month y m =
     (if m = 1 then 0 else if m = 2 then 31 else if m = 3 then 59 else if m = 4 then 90
      else if m = 5 then 120 else if m = 6 then 151 else if m = 7 then 181
      else if m = 8 then 212 else if m = 9 then 243 else if m = 10 then 273
      else if m = 11 then 304 else 334)
     + (if m > 2 \<and> is_leap y then 1 else 0)"

definition toordinal :: "date \<Rightarrow> int" where
  "toordinal dt = days_before_year (year dt) + days_before_month (year dt) (month dt) + day dt"

definition date_less :: "date \<Rightarrow> date \<Rightarrow> bool" where
  "date_less a b \<longleftrightarrow>
     year a < year b \<or> (year a = year b \<and>
       (month a < month b \<or> (month a = month b \<and> day a < day b)))"

text \<open>\<open>dt.replace(year=y)\<close> builds a new date and so validates it.\<close>

definition replace_year :: "date \<Rightarrow> int \<Rightarrow> py_exception + date" where
  "replace_year dt y =
     (if valid_date y (month dt) (day dt) then Inr (dt\<lparr>year := y\<rparr>)
      else if y < 1 \<or> 9999 < y then Inl (ValueError ''year is out of range'')
      else Inl (ValueError ''day is out of range for month''))"

text \<open>
  The body of the loop of \<open>get_next_birthday\<close> for one parsed birthday (lines 498 to
  503); the same statements stand in \<open>get_upcoming_birthdays\<close> (lines 518 to 521),
  \<open>show_upcoming_birthdays\<close> (lines 536 to 541) and \<open>check_next_birthday\<close> (lines 618
  to 624). The result is the final value of \<open>this_year_birthday\<close> together with
  \<open>days_left\<close>, or the exception that \<open>replace\<close> raises.
\<close>

definition this_year_birthday :: "date \<Rightarrow> date \<Rightarrow> py_exception + (date \<times> int)" where
  "this_year_birthday birthday_date today =
     (case replace_year birthday_date (year today) of
        Inl e \<Rightarrow> Inl e
      | Inr candidate \<Rightarrow>
          (if date_less candidate today
           then (case replace_year candidate (year today + 1) of
                   Inl e \<Rightarrow> Inl e
                 | Inr next_year \<Rightarrow> Inr (next_year, toordinal next_year - toordinal today))
           else Inr (candidate, toordinal candidate - toordinal today)))"

section \<open>Postcard deadline (get_next_business_day, get_postcard_send_date)\<close>

text \<open>
  In this part a date is its proleptic Gregorian ordinal (\<open>toordinal\<close>): adding a
  \<open>timedelta\<close> of n days adds n to the ordinal, the difference of two dates in days is
  the difference of the ordinals, and \<open>weekday()\<close> is \<open>(ordinal + 6) % 7\<close>, Monday
  being 0. Dates range from 0001-01-01 (ordinal 1) to 9999-12-31 (ordinal 3652059);
  arithmetic that leaves the range raises OverflowError.
\<close>

definition date_max_ordinal :: int where
  "date_max_ordinal = 3652059"

definition weekday :: "int \<Rightarrow> int" where
  "weekday d = (d + 6) mod 7"

definition date_add :: "int \<Rightarrow> int \<Rightarrow> py_exception + int" where
  "date_add d n =
     (if 1 \<le> d + n \<and> d + n \<le> date_max_ordinal then Inr (d + n)
      else Inl (OverflowError ''date value out of range''))"

text \<open>
  The holiday calendar \<open>nl_holidays\<close> (the object that \<open>get_dutch_holidays\<close> returns)
  comes from a library outside the repository. It is a parameter: the set of the dates
  \<open>d\<close> for which the test \<open>d in nl_holidays\<close> is true. The condition of the loops
  at lines 564 and 589 is \<open>non_business\<close>.
\<close>

definition non_business :: "int set \<Rightarrow> int \<Rightarrow> bool" where
  "non_business holidays d \<longleftrightarrow> weekday d \<ge> 5 \<or> d \<in> holidays"

text \<open>
  The loops are partial functions: \<open>None\<close> stands for a loop that does not return,
  \<open>Some (Inl e)\<close> for a raised exception and \<open>Some (Inr d)\<close> for a returned date.
  First the while loop of \<open>get_next_business_day\<close> (lines 564 and 565).
\<close>

partial_function (option) next_business_scan :: "int set \<Rightarrow> int \<Rightarrow> (py_exception + int) option" where
  "next_business_scan holidays next_day =
     (if non_business holidays next_day
      then (case date_add next_day 1 of
              Inl e \<Rightarrow> Some (Inl e)
            | Inr d \<Rightarrow> next_business_scan holidays d)
      else Some (Inr next_day))"

declare next_business_scan.simps [code]

definition get_next_business_day :: "int \<Rightarrow> int set \<Rightarrow> (py_exception + int) option" where
  "get_next_business_day date holidays =
     (case date_add date 1 of
        Inl e \<Rightarrow> Some (Inl e)
      | Inr next_day \<Rightarrow> next_business_scan holidays next_day)"

text \<open>The dictionary \<open>delivery_schedule\<close> (lines 576 to 584), keyed by weekday.\<close>

definition delivery_schedule :: "int \<Rightarrow> int" where
  "delivery_schedule w = (if w = 5 then 3 else if w = 6 then 2 else 1)"

text \<open>The first while loop of \<open>get_postcard_send_date\<close> (lines 589 and 590).\<close>

partial_function (option) send_date_adjust :: "int set \<Rightarrow> int \<Rightarrow> (py_exception + int) option" where
  "send_date_adjust nl_holidays send_date =
     (if non_business nl_holidays send_date
      then (case date_add send_date (- 1) of
              Inl e \<Rightarrow> Some (Inl e)
            | Inr d \<Rightarrow> send_date_adjust nl_holidays d)
      else Some (Inr send_date))"

declare send_date_adjust.simps [code]

text \<open>The second while loop (lines 593 to 595), which retreats the send date.\<close>

partial_function (option) send_date_retreat ::
  "int set \<Rightarrow> int \<Rightarrow> int \<Rightarrow> (py_exception + int) option" where
  "send_date_retreat nl_holidays send_date delivery_date =
     (if delivery_date - send_date > 4
      then (case date_add send_date (- 1) of
              Inl e \<Rightarrow> Some (Inl e)
            | Inr s \<Rightarrow>
                (case get_next_business_day s nl_holidays of
                   None \<Rightarrow> None
                 | Some (Inl e) \<Rightarrow> Some (Inl e)
                 | Some (Inr d) \<Rightarrow> send_date_retreat nl_holidays s d))
      else Some (Inr send_date))"

declare send_date_retreat.simps [code]

text \<open>
  \<open>get_postcard_send_date\<close>; the parameter \<open>today\<close> only selects the year of the
  calendar and is replaced by the calendar itself.
\<close>

definition get_postcard_send_date :: "int \<Rightarrow> int set \<Rightarrow> (py_exception + int) option" where
  "get_postcard_send_date birthday_date nl_holidays =
     (case date_add birthday_date (- delivery_schedule (weekday birthday_date)) of
        Inl e \<Rightarrow> Some (Inl e)
      | Inr send_date \<Rightarrow>
          (case send_date_adjust nl_holidays send_date of
             None \<Rightarrow> None
           | Some (Inl e) \<Rightarrow> Some (Inl e)
           | Some (Inr send_date') \<Rightarrow>
               (case get_next_business_day send_date' nl_holidays of
                  None \<Rightarrow> None
                | Some (Inl e) \<Rightarrow> Some (Inl e)
                | Some (Inr delivery_date) \<Rightarrow>
                    send_date_retreat nl_holidays send_date' delivery_date)))"

text \<open>
  Two conditions on a calendar. \<open>no_long_gap\<close>: the calendar never has 5 or more
  consecutive non-business days, that is, among any 5 consecutive days one is a business
  day. \<open>retreat_safe\<close>: no business day that directly follows a non-business day is
  itself followed by 4 consecutive non-business days.
\<close>

definition no_long_gap :: "int set \<Rightarrow> bool" where
  "no_long_gap holidays \<longleftrightarrow> (\<forall>x. \<exists>k\<in>{0..4}. \<not> non_business holidays (x + k))"


text \<open>
  A calendar with the two Christmas holidays of 2025: Thursday 2025-12-25 (ordinal
  739610) and Friday 2025-12-26 (ordinal 739611).
\<close>

definition christmas_2025 :: "int set" where
  "christmas_2025 = {739610, 739611}"

section \<open>Properties of the threshold ladder\<close>

lemma notify_loop_append: "notify_loop p ts ntf = (ntf', ev) \<Longrightarrow> ntf' = ntf @ ev"
proof (induction ts arbitrary: ntf ntf' ev)
  case Nil
  then show ?case by simp
next
  case (Cons t ts)
  show ?case
  proof (cases "p \<ge> t \<and> t \<notin> set ntf")
    case True
    obtain n2 e2 where r: "notify_loop p ts (ntf @ [t]) = (n2, e2)"
      by (cases "notify_loop p ts (ntf @ [t])")
    from Cons.prems True r have "ntf' = n2" "ev = t # e2" by auto
    moreover from Cons.IH [OF r] have "n2 = (ntf @ [t]) @ e2" .
    ultimately show ?thesis by simp
  next
    case False
    with Cons.prems have "notify_loop p ts ntf = (ntf', ev)" by auto
    then show ?thesis by (rule Cons.IH)
  qed
qed

lemma notify_loop_events:
  "notify_loop p ts ntf = (ntf', ev) \<Longrightarrow>
     set ev \<subseteq> set ts \<and> set ev \<inter> set ntf = {} \<and> distinct ev \<and> (\<forall>t\<in>set ev. t \<le> p)"
proof (induction ts arbitrary: ntf ntf' ev)
  case Nil
  then show ?case by simp
next
  case (Cons t ts)
  show ?case
  proof (cases "p \<ge> t \<and> t \<notin> set ntf")
    case True
    obtain n2 e2 where r: "notify_loop p ts (ntf @ [t]) = (n2, e2)"
      by (cases "notify_loop p ts (ntf @ [t])")
    from Cons.prems True r have e: "ev = t # e2" by auto
    from Cons.IH [OF r] have "set e2 \<subseteq> set ts" "set e2 \<inter> set (ntf @ [t]) = {}" "distinct e2"
      "\<forall>t\<in>set e2. t \<le> p" by auto
    with e True show ?thesis by auto
  next
    case False
    with Cons.prems have "notify_loop p ts ntf = (ntf', ev)" by auto
    from Cons.IH [OF this] show ?thesis by auto
  qed
qed

lemma strictly_sorted_sort_append:
  assumes "sorted_wrt (<) (xs::int list)" and "x \<notin> set xs"
  shows "sorted_wrt (<) (sort (xs @ [x]))"
proof -
  from assms have "distinct (xs @ [x])" by (auto simp: strict_sorted_iff)
  then have "distinct (sort (xs @ [x]))" by simp
  then show ?thesis by (simp add: strict_sorted_iff)
qed

lemma check_step:
  assumes "check_and_notify_price_threshold p st = (ev, st')"
  shows "notified st' = notified st @ ev" and "set (thresholds st) \<subseteq> set (thresholds st')"
    and "set ev \<subseteq> set (thresholds st')" and "set ev \<inter> set (notified st) = {}" and "distinct ev"
    and "sorted_wrt (<) (thresholds st) \<Longrightarrow> sorted_wrt (<) (thresholds st')"
    and "price st' = p"
proof -
  define ths where "ths = (if next_threshold p \<notin> set (thresholds st)
     then sort (thresholds st @ [next_threshold p]) else thresholds st)"
  obtain n2 e2 where r: "notify_loop p ths (notified st) = (n2, e2)"
    by (cases "notify_loop p ths (notified st)")
  from assms r have ev: "ev = e2" and st': "st' = \<lparr>price = p, thresholds = ths, notified = n2\<rparr>"
    by (auto simp: check_and_notify_price_threshold_def Let_def ths_def)
  from notify_loop_append [OF r] show "notified st' = notified st @ ev" by (simp add: ev st')
  show "set (thresholds st) \<subseteq> set (thresholds st')" by (auto simp: st' ths_def)
  from notify_loop_events [OF r] show "set ev \<subseteq> set (thresholds st')"
    "set ev \<inter> set (notified st) = {}" "distinct ev" by (auto simp: st' ev)
  show "sorted_wrt (<) (thresholds st) \<Longrightarrow> sorted_wrt (<) (thresholds st')"
    using strictly_sorted_sort_append [of "thresholds st" "next_threshold p"]
    by (simp add: st' ths_def)
  show "price st' = p" by (simp add: st')
qed

lemma check_step_inv:
  assumes "check_and_notify_price_threshold p st = (ev, st')" and "ladder_inv st"
  shows "ladder_inv st'"
  using check_step(1,2,3,6) [OF assms(1)] assms(2) unfolding ladder_inv_def by auto

lemma check_prices_events:
  "check_prices ps st = (evs, st') \<Longrightarrow>
     distinct (concat evs) \<and> set (concat evs) \<inter> set (notified st) = {} \<and>
     notified st' = notified st @ concat evs"
proof (induction ps arbitrary: st evs st')
  case Nil
  then show ?case by simp
next
  case (Cons p ps)
  obtain e1 s1 where a: "check_and_notify_price_threshold p st = (e1, s1)"
    by (cases "check_and_notify_price_threshold p st")
  obtain e2 s2 where b: "check_prices ps s1 = (e2, s2)"
    by (cases "check_prices ps s1")
  from Cons.prems a b have evs: "evs = e1 # e2" and s: "st' = s2" by auto
  from Cons.IH [OF b] have ih: "distinct (concat e2)" "set (concat e2) \<inter> set (notified s1) = {}"
    "notified s2 = notified s1 @ concat e2" by auto
  from check_step(1,4,5) [OF a] ih show ?case by (auto simp: evs s)
qed

lemma check_prices_inv:
  "check_prices ps st = (evs, st') \<Longrightarrow> ladder_inv st \<Longrightarrow> ladder_inv st'"
proof (induction ps arbitrary: st evs st')
  case Nil
  then show ?case by simp
next
  case (Cons p ps)
  obtain e1 s1 where a: "check_and_notify_price_threshold p st = (e1, s1)"
    by (cases "check_and_notify_price_threshold p st")
  obtain e2 s2 where b: "check_prices ps s1 = (e2, s2)"
    by (cases "check_prices ps s1")
  from Cons.prems(1) a b have s: "st' = s2" by auto
  from check_step_inv [OF a Cons.prems(2)] Cons.IH [OF b] show ?case by (simp add: s)
qed

text \<open>
  Claim C2. From the empty ladder, the call with price 30500 computes the next threshold
  (30500 div 1000 + 1) * 1000 = 31000, inserts it and emits no event; the following call
  with 31200 inserts 32000 and emits exactly one event, for 31000; a third call with
  31500 emits no event.
\<close>

theorem ladder_three_calls:
  "next_threshold 30500 = 31000
   \<and> check_and_notify_price_threshold 30500 empty_ladder
       = ([], \<lparr>price = 30500, thresholds = [31000], notified = []\<rparr>)
   \<and> check_and_notify_price_threshold 31200 \<lparr>price = 30500, thresholds = [31000], notified = []\<rparr>
       = ([31000], \<lparr>price = 31200, thresholds = [31000, 32000], notified = [31000]\<rparr>)
   \<and> check_and_notify_price_threshold 31500
         \<lparr>price = 31200, thresholds = [31000, 32000], notified = [31000]\<rparr>
       = ([], \<lparr>price = 31500, thresholds = [31000, 32000], notified = [31000]\<rparr>)"
  by (simp add: check_and_notify_price_threshold_def empty_ladder_def next_threshold_def)

text \<open>
  Claim C3. Every call preserves the ladder invariant (notified is a subset of
  thresholds, thresholds is strictly increasing) and only appends to notified, so no
  element leaves it. Consequently, over a non-decreasing sequence of prices the invariant
  holds at the end, and the events of all calls taken together contain no threshold
  twice, nor one that was already notified at the start.
\<close>

theorem ladder_invariant_preserved:
  assumes "ladder_inv st"
  shows "(case check_and_notify_price_threshold p st of
            (events, st') \<Rightarrow> ladder_inv st' \<and> notified st' = notified st @ events
               \<and> set (notified st) \<subseteq> set (notified st'))
         \<and> (sorted prices \<longrightarrow>
             (case check_prices prices st of
                (evs, st') \<Rightarrow> ladder_inv st' \<and> distinct (concat evs)
                   \<and> set (concat evs) \<inter> set (notified st) = {}
                   \<and> set (notified st) \<subseteq> set (notified st')))"
proof -
  obtain e1 s1 where a: "check_and_notify_price_threshold p st = (e1, s1)"
    by (cases "check_and_notify_price_threshold p st")
  obtain e2 s2 where b: "check_prices prices st = (e2, s2)"
    by (cases "check_prices prices st")
  have "ladder_inv s1" using check_step_inv [OF a assms] .
  moreover have "notified s1 = notified st @ e1" using check_step(1) [OF a] .
  moreover have "ladder_inv s2" using check_prices_inv [OF b assms] .
  moreover have "distinct (concat e2)" "set (concat e2) \<inter> set (notified st) = {}"
    "notified s2 = notified st @ concat e2"
    using check_prices_events [OF b] by auto
  ultimately show ?thesis by (simp add: a b)
qed

theorem ladder_invariant_preserved_witness:
  "ladder_inv empty_ladder \<and> sorted [30500, 31200, 31500 :: int]
   \<and> (case check_and_notify_price_threshold 30500 empty_ladder of
            (events, st') \<Rightarrow> ladder_inv st' \<and> notified st' = notified empty_ladder @ events
               \<and> set (notified empty_ladder) \<subseteq> set (notified st'))
   \<and> (case check_prices [30500, 31200, 31500] empty_ladder of
                (evs, st') \<Rightarrow> ladder_inv st' \<and> distinct (concat evs)
                   \<and> set (concat evs) \<inter> set (notified empty_ladder) = {}
                   \<and> set (notified empty_ladder) \<subseteq> set (notified st'))"
proof -
  have h: "ladder_inv empty_ladder" by (simp add: ladder_inv_def empty_ladder_def)
  have s: "sorted [30500, 31200, 31500 :: int]" by simp
  note t = ladder_invariant_preserved [OF h, of 30500 "[30500, 31200, 31500]"]
  show ?thesis
    by (rule conjI [OF h conjI [OF s conjI [OF conjunct1 [OF t] mp [OF conjunct2 [OF t] s]]]])
qed

section \<open>Properties of the backoff wrapper\<close>

lemma loop_transient:
  assumes "retries < max_retries" and "func s = (Inl (ApiException 502), s')"
      and "0 \<le> initial_delay"
  shows "api_request_loop func max_retries initial_delay retries s =
     (case api_request_loop func max_retries initial_delay (retries + 1) s' of
        (r, s'', tr) \<Rightarrow> (r, s'', Invoke # Sleep (initial_delay * 2 ^ nat retries) # tr))"
proof -
  have "\<not> initial_delay * 2 ^ nat retries < 0" using assms(3) by (simp add: not_less)
  then show ?thesis using assms(1,2)
    by (subst api_request_loop.simps) (simp add: Let_def case_prod_beta)
qed


lemma loop_success:
  assumes "retries < max_retries" and "func s = (Inr v, s')"
  shows "api_request_loop func max_retries initial_delay retries s = (Inr v, s', [Invoke])"
  using assms by (subst api_request_loop.simps) (simp add: Let_def)



lemma loop_sleeps:
  "0 \<le> retries \<Longrightarrow>
   a < length (sleeps (snd (snd (api_request_loop func max_retries initial_delay retries s)))) \<Longrightarrow>
   sleeps (snd (snd (api_request_loop func max_retries initial_delay retries s))) ! a
     = initial_delay * 2 ^ (nat retries + a)"
proof (induction func max_retries initial_delay retries s arbitrary: a
        rule: api_request_loop.induct)
  case (1 func max_retries initial_delay retries s)
  show ?case
  proof (cases "retries < max_retries \<and> fst (func s) = Inl (ApiException 502)
                  \<and> \<not> initial_delay * 2 ^ nat retries < 0")
    case True
    let ?r' = "api_request_loop func max_retries initial_delay (retries + 1) (snd (func s))"
    have eq: "api_request_loop func max_retries initial_delay retries s
       = (fst ?r', fst (snd ?r'), Invoke # Sleep (initial_delay * 2 ^ nat retries) # snd (snd ?r'))"
      using True by (subst api_request_loop.simps) (simp add: Let_def)
    show ?thesis
    proof (cases a)
      case 0
      then show ?thesis by (simp add: eq)
    next
      case (Suc b)
      with "1.prems" have "b < length (sleeps (snd (snd ?r')))" by (simp add: eq)
      with "1.IH" [of "func s" "initial_delay * 2 ^ nat retries" b] True "1.prems"(1)
      have "sleeps (snd (snd ?r')) ! b = initial_delay * 2 ^ (nat (retries + 1) + b)"
        by simp
      moreover have "nat (retries + 1) + b = nat retries + a" using "1.prems"(1) Suc by simp
      ultimately show ?thesis by (simp add: eq Suc)
    qed
  next
    case False
    then have "sleeps (snd (snd (api_request_loop func max_retries initial_delay retries s))) = []"
      by (subst api_request_loop.simps) (auto simp: Let_def)
    with "1.prems" show ?thesis by simp
  qed
qed


text \<open>
  Claim C4. With max_retries = 5 and initial_delay = 1, an operation that fails with the
  transient error (ApiException, error code 502) on its first two invocations and
  succeeds on the third is invoked exactly three times, and the wrapper sleeps 1 and then
  2 seconds, 3 in total. For every operation and every setting, the sleep before retry
  number a (counted from 0) is initial_delay * 2 ^ a.
\<close>

theorem backoff_two_failures_then_success:
  assumes "func s0 = (Inl (ApiException 502), s1)"
      and "func s1 = (Inl (ApiException 502), s2)"
      and "func s2 = (Inr v, s3)"
  shows "api_request_with_backoff func 5 1 s0
           = (Inr v, s3, [Invoke, Sleep 1, Invoke, Sleep 2, Invoke])
         \<and> invocations (snd (snd (api_request_with_backoff func 5 1 s0))) = 3
         \<and> sum_list (sleeps (snd (snd (api_request_with_backoff func 5 1 s0)))) = 1 + 2
         \<and> (\<forall>a < length (sleeps (snd (snd (api_request_with_backoff g m d s)))).
               sleeps (snd (snd (api_request_with_backoff g m d s))) ! a = d * 2 ^ a)"
proof -
  have r: "api_request_with_backoff func 5 1 s0
           = (Inr v, s3, [Invoke, Sleep 1, Invoke, Sleep 2, Invoke])"
    unfolding api_request_with_backoff_def
    by (simp add: loop_transient [where func = func and s = s0 and s' = s1, OF _ assms(1)]
          loop_transient [where func = func and s = s1 and s' = s2, OF _ assms(2)]
          loop_success [where func = func and s = s2 and s' = s3, OF _ assms(3)])
  have g: "\<forall>a < length (sleeps (snd (snd (api_request_with_backoff g m d s)))).
               sleeps (snd (snd (api_request_with_backoff g m d s))) ! a = d * 2 ^ a"
    unfolding api_request_with_backoff_def using loop_sleeps [of 0 _ g m d s] by simp
  from r g show ?thesis by simp
qed

theorem backoff_two_failures_then_success_witness:
  "flaky_twice 0 = (Inl (ApiException 502), 1)
   \<and> flaky_twice 1 = (Inl (ApiException 502), 2)
   \<and> flaky_twice 2 = (Inr 42, 3)
   \<and> api_request_with_backoff flaky_twice 5 1 0
        = (Inr 42, 3, [Invoke, Sleep 1, Invoke, Sleep 2, Invoke])
   \<and> invocations (snd (snd (api_request_with_backoff flaky_twice 5 1 0))) = 3
   \<and> sum_list (sleeps (snd (snd (api_request_with_backoff flaky_twice 5 1 0)))) = 3
   \<and> sleeps (snd (snd (api_request_with_backoff flaky_twice 5 1 0))) ! 1 = 1 * 2 ^ 1"
proof -
  have h0: "flaky_twice 0 = (Inl (ApiException 502), 1)" by (simp add: flaky_twice_def)
  have h1: "flaky_twice 1 = (Inl (ApiException 502), 2)" by (simp add: flaky_twice_def)
  have h2: "flaky_twice 2 = (Inr 42, 3)" by (simp add: flaky_twice_def)
  note t = backoff_two_failures_then_success [OF h0 h1 h2, of flaky_twice 5 1 0]
  from t have r: "api_request_with_backoff flaky_twice 5 1 0
        = (Inr 42, 3, [Invoke, Sleep 1, Invoke, Sleep 2, Invoke])" by (rule conjunct1)
  from t have "\<forall>a < length (sleeps (snd (snd (api_request_with_backoff flaky_twice 5 1 0)))).
      sleeps (snd (snd (api_request_with_backoff flaky_twice 5 1 0))) ! a = 1 * 2 ^ a"
    by (elim conjE)
  moreover have "1 < length (sleeps (snd (snd (api_request_with_backoff flaky_twice 5 1 0))))"
    by (simp add: r)
  ultimately have n: "sleeps (snd (snd (api_request_with_backoff flaky_twice 5 1 0))) ! 1 = 1 * 2 ^ 1"
    by blast
  have i: "invocations (snd (snd (api_request_with_backoff flaky_twice 5 1 0))) = 3"
    by (simp add: r)
  have t: "sum_list (sleeps (snd (snd (api_request_with_backoff flaky_twice 5 1 0)))) = 3"
    by (simp add: r)
  show ?thesis
    by (rule conjI [OF h0 conjI [OF h1 conjI [OF h2 conjI [OF r conjI [OF i conjI [OF t n]]]]]])
qed



section \<open>Properties of the caches\<close>

lemma loop_preserves:
  "(\<And>x. f (snd (func x)) = f x) \<Longrightarrow>
     f (fst (snd (api_request_loop func max_retries initial_delay retries s))) = f s"
proof (induction func max_retries initial_delay retries s rule: api_request_loop.induct)
  case (1 func max_retries initial_delay retries s)
  show ?case
  proof (cases "retries < max_retries \<and> fst (func s) = Inl (ApiException 502)
                  \<and> \<not> initial_delay * 2 ^ nat retries < 0")
    case True
    from "1.IH" [of "func s" "initial_delay * 2 ^ nat retries"] True "1.prems"
    have "f (fst (snd (api_request_loop func max_retries initial_delay (retries + 1)
             (snd (func s))))) = f (snd (func s))" by simp
    with "1.prems" [of s] True show ?thesis
      by (subst api_request_loop.simps) (simp add: Let_def)
  next
    case False
    with "1.prems" [of s] show ?thesis
      by (subst api_request_loop.simps) (auto simp: Let_def)
  qed
qed

lemma loop_mono:
  fixes g :: "'s \<Rightarrow> nat"
  shows "(\<And>x. g x \<le> g (snd (func x))) \<Longrightarrow>
     g s \<le> g (fst (snd (api_request_loop func max_retries initial_delay retries s)))"
proof (induction func max_retries initial_delay retries s rule: api_request_loop.induct)
  case (1 func max_retries initial_delay retries s)
  show ?case
  proof (cases "retries < max_retries \<and> fst (func s) = Inl (ApiException 502)
                  \<and> \<not> initial_delay * 2 ^ nat retries < 0")
    case True
    from "1.IH" [of "func s" "initial_delay * 2 ^ nat retries"] True "1.prems"
    have "g (snd (func s)) \<le> g (fst (snd (api_request_loop func max_retries initial_delay
             (retries + 1) (snd (func s)))))" by simp
    with "1.prems" [of s] True show ?thesis
      by (subst api_request_loop.simps) (simp add: Let_def)
  next
    case False
    with "1.prems" [of s] show ?thesis
      by (subst api_request_loop.simps) (auto simp: Let_def)
  qed
qed

lemma loop_strict:
  fixes g :: "'s \<Rightarrow> nat"
  assumes "\<And>x. g x < g (snd (func x))" and "retries < max_retries"
  shows "g s < g (fst (snd (api_request_loop func max_retries initial_delay retries s)))"
proof -
  have le: "\<And>x. g x \<le> g (snd (func x))" using assms(1) by (simp add: less_imp_le)
  have m: "g (snd (func s)) \<le> g (fst (snd (api_request_loop func max_retries initial_delay
             (retries + 1) (snd (func s)))))"
    using le by (rule loop_mono)
  from assms(1) [of s] m assms(2) show ?thesis
    by (subst api_request_loop.simps) (auto simp: Let_def)
qed

lemma backoff_returning:
  assumes "fst (func s) = Inr v" and "0 < max_retries"
  shows "api_request_with_backoff func max_retries initial_delay s
           = (Inr v, snd (func s), [Invoke])"
proof -
  from assms(1) have "func s = (Inr v, snd (func s))" by (cases "func s") simp
  from loop_success [where func = func and s = s, OF assms(2) this]
  show ?thesis by (simp add: api_request_with_backoff_def)
qed

lemma mempool_fetch_data_effect:
  "MEMPOOL_CACHE (snd (mempool_fetch_data x)) = MEMPOOL_CACHE x"
  "BITCOIN_CACHE (snd (mempool_fetch_data x)) = BITCOIN_CACHE x"
  "length (fetch_log (snd (mempool_fetch_data x))) = Suc (length (fetch_log x))"
  by (simp_all add: mempool_fetch_data_def split: list.split)

lemma change_fetch_data_effect:
  "MEMPOOL_CACHE (snd (change_fetch_data x)) = MEMPOOL_CACHE x"
  "BITCOIN_CACHE (snd (change_fetch_data x)) = BITCOIN_CACHE x"
  "length (fetch_log (snd (change_fetch_data x))) = Suc (length (fetch_log x))"
  by (simp_all add: change_fetch_data_def split: list.split)

lemma fetch_coingecko_effect:
  "MEMPOOL_CACHE (snd (fetch_coingecko x)) = MEMPOOL_CACHE x"
  "BITCOIN_CACHE (snd (fetch_coingecko x)) = BITCOIN_CACHE x"
  "length (fetch_log (snd (fetch_coingecko x))) = Suc (length (fetch_log x))"
  by (simp_all add: fetch_coingecko_def split: list.split)

lemma mempool_backoff_effect:
  "MEMPOOL_CACHE (fst (snd (api_request_with_backoff mempool_fetch_data 5 1 s))) = MEMPOOL_CACHE s"
  "BITCOIN_CACHE (fst (snd (api_request_with_backoff mempool_fetch_data 5 1 s))) = BITCOIN_CACHE s"
  "length (fetch_log s)
     < length (fetch_log (fst (snd (api_request_with_backoff mempool_fetch_data 5 1 s))))"
  unfolding api_request_with_backoff_def
  by (rule loop_preserves, rule mempool_fetch_data_effect,
      rule loop_preserves, rule mempool_fetch_data_effect,
      rule loop_strict [where g = "\<lambda>s. length (fetch_log s)"],
      simp_all add: mempool_fetch_data_effect)

lemma change_backoff_effect:
  "MEMPOOL_CACHE (fst (snd (api_request_with_backoff change_fetch_data 5 1 s))) = MEMPOOL_CACHE s"
  "BITCOIN_CACHE (fst (snd (api_request_with_backoff change_fetch_data 5 1 s))) = BITCOIN_CACHE s"
  "length (fetch_log s)
     < length (fetch_log (fst (snd (api_request_with_backoff change_fetch_data 5 1 s))))"
  unfolding api_request_with_backoff_def
  by (rule loop_preserves, rule change_fetch_data_effect,
      rule loop_preserves, rule change_fetch_data_effect,
      rule loop_strict [where g = "\<lambda>s. length (fetch_log s)"],
      simp_all add: change_fetch_data_effect)

lemma price_backoff_effect:
  "MEMPOOL_CACHE (fst (snd (api_request_with_backoff fetch_coingecko 5 1 s))) = MEMPOOL_CACHE s"
  "BITCOIN_CACHE (fst (snd (api_request_with_backoff fetch_coingecko 5 1 s))) = BITCOIN_CACHE s"
  "length (fetch_log s)
     < length (fetch_log (fst (snd (api_request_with_backoff fetch_coingecko 5 1 s))))"
  unfolding api_request_with_backoff_def
  by (rule loop_preserves, rule fetch_coingecko_effect,
      rule loop_preserves, rule fetch_coingecko_effect,
      rule loop_strict [where g = "\<lambda>s. length (fetch_log s)"],
      simp_all add: fetch_coingecko_effect)

lemma get_mempool_data_fresh:
  "cache_fresh (MEMPOOL_CACHE s) t \<Longrightarrow> get_mempool_data t s = (Inr (data (MEMPOOL_CACHE s)), s)"
  by (simp add: get_mempool_data_def)

lemma get_mempool_data_stale:
  assumes "\<not> cache_fresh (MEMPOOL_CACHE s) t"
  shows "get_mempool_data t s =
     (case fst (api_request_with_backoff mempool_fetch_data 5 1 s) of
        Inr d \<Rightarrow> (Inr (Some d), (fst (snd (api_request_with_backoff mempool_fetch_data 5 1 s)))
                     \<lparr>MEMPOOL_CACHE := \<lparr>data = Some d, last_updated = Some t\<rparr>\<rparr>)
      | Inl e \<Rightarrow> (Inr None, fst (snd (api_request_with_backoff mempool_fetch_data 5 1 s))))"
  using assms by (simp add: get_mempool_data_def split: prod.split sum.split)

lemma get_mempool_data_returns: "\<exists>r. fst (get_mempool_data t s) = Inr r"
  by (simp add: get_mempool_data_def split: prod.split sum.split)

lemma get_mempool_data_effect:
  "BITCOIN_CACHE (snd (get_mempool_data t s)) = BITCOIN_CACHE s"
  "length (fetch_log s) \<le> length (fetch_log (snd (get_mempool_data t s)))"
  "\<not> cache_fresh (MEMPOOL_CACHE s) t \<Longrightarrow>
     length (fetch_log s) < length (fetch_log (snd (get_mempool_data t s)))"
proof -
  show "BITCOIN_CACHE (snd (get_mempool_data t s)) = BITCOIN_CACHE s"
    using mempool_backoff_effect(2) [of s]
    by (cases "cache_fresh (MEMPOOL_CACHE s) t")
       (simp_all add: get_mempool_data_fresh get_mempool_data_stale split: sum.split)
  show st: "\<not> cache_fresh (MEMPOOL_CACHE s) t \<Longrightarrow>
     length (fetch_log s) < length (fetch_log (snd (get_mempool_data t s)))"
    using mempool_backoff_effect(3) [of s]
    by (simp add: get_mempool_data_stale split: sum.split)
  show "length (fetch_log s) \<le> length (fetch_log (snd (get_mempool_data t s)))"
    using st by (cases "cache_fresh (MEMPOOL_CACHE s) t")
       (simp_all add: get_mempool_data_fresh less_imp_le)
qed

lemma get_coingecko_price_change_eq:
  "get_coingecko_price_change s =
     (case fst (api_request_with_backoff change_fetch_data 5 1 s) of
        Inr c \<Rightarrow> Inr (Some c) | Inl e \<Rightarrow> Inr None,
      fst (snd (api_request_with_backoff change_fetch_data 5 1 s)))"
  by (simp add: get_coingecko_price_change_def split: prod.split sum.split)

lemma get_coingecko_price_change_returns: "\<exists>r. fst (get_coingecko_price_change s) = Inr r"
  by (simp add: get_coingecko_price_change_eq split: sum.split)

lemma get_coingecko_price_change_effect:
  "MEMPOOL_CACHE (snd (get_coingecko_price_change s)) = MEMPOOL_CACHE s"
  "BITCOIN_CACHE (snd (get_coingecko_price_change s)) = BITCOIN_CACHE s"
  "length (fetch_log s) < length (fetch_log (snd (get_coingecko_price_change s)))"
  by (simp_all add: get_coingecko_price_change_eq change_backoff_effect)


lemma cache_stale_later:
  "\<not> cache_fresh c t \<Longrightarrow> t \<le> t' \<Longrightarrow> \<not> cache_fresh c t'"
  by (auto simp: cache_fresh_def split: option.splits)

lemma get_bitcoin_price_fresh:
  "cache_fresh (BITCOIN_CACHE s) t \<Longrightarrow>
     get_bitcoin_price t tm s = (Inr (data (BITCOIN_CACHE s)), s)"
  by (simp add: get_bitcoin_price_def)

lemma get_bitcoin_price_stale:
  assumes "\<not> cache_fresh (BITCOIN_CACHE s) t"
      and m: "fst (get_mempool_data tm s) = Inr mempool"
      and c: "fst (get_coingecko_price_change (snd (get_mempool_data tm s))) = Inr price_change"
  shows "get_bitcoin_price t tm s =
     (case mempool of
        Some md \<Rightarrow>
          (Inr (Some \<lparr>eur = Some (price_eur md), usd = Some (price_usd md),
                       eur_24h_change = price_change, suggested_fee = Some (fee md)\<rparr>),
           (snd (get_coingecko_price_change (snd (get_mempool_data tm s))))
             \<lparr>BITCOIN_CACHE :=
                \<lparr>data = Some \<lparr>eur = Some (price_eur md), usd = Some (price_usd md),
                       eur_24h_change = price_change, suggested_fee = Some (fee md)\<rparr>,
                 last_updated = Some t\<rparr>\<rparr>)
      | None \<Rightarrow>
          (case fst (api_request_with_backoff fetch_coingecko 5 1
                  (snd (get_coingecko_price_change (snd (get_mempool_data tm s))))) of
             Inl e \<Rightarrow> (Inr None, fst (snd (api_request_with_backoff fetch_coingecko 5 1
                  (snd (get_coingecko_price_change (snd (get_mempool_data tm s)))))))
           | Inr bitcoin \<Rightarrow>
              (case eur bitcoin of
                 None \<Rightarrow> (Inr None, fst (snd (api_request_with_backoff fetch_coingecko 5 1
                  (snd (get_coingecko_price_change (snd (get_mempool_data tm s)))))))
               | Some p \<Rightarrow>
                  (Inr (Some bitcoin),
                   (fst (snd (api_request_with_backoff fetch_coingecko 5 1
                      (snd (get_coingecko_price_change (snd (get_mempool_data tm s)))))))
                     \<lparr>BITCOIN_CACHE :=
                        \<lparr>data = Some bitcoin, last_updated = Some t\<rparr>\<rparr>))))"
proof -
  define s1 where "s1 = snd (get_mempool_data tm s)"
  have w1: "api_request_with_backoff (get_mempool_data tm) 5 1 s = (Inr mempool, s1, [Invoke])"
    unfolding s1_def
    by (rule backoff_returning [where func = "get_mempool_data tm" and s = s, OF m]) simp
  have w2: "api_request_with_backoff get_coingecko_price_change 5 1 s1
      = (Inr price_change, snd (get_coingecko_price_change s1), [Invoke])"
    by (rule backoff_returning [where func = get_coingecko_price_change and s = s1,
          OF c [folded s1_def]]) simp
  obtain r3 s3 tr3 where w3: "api_request_with_backoff fetch_coingecko 5 1
      (snd (get_coingecko_price_change s1)) = (r3, s3, tr3)"
    by (cases "api_request_with_backoff fetch_coingecko 5 1
      (snd (get_coingecko_price_change s1))")
  show ?thesis
    unfolding get_bitcoin_price_def s1_def [symmetric]
    using assms(1)
    by (cases mempool; cases r3) (simp_all add: w1 w2 w3 Let_def split: option.split)
qed

lemma get_bitcoin_price_returns: "\<exists>r. fst (get_bitcoin_price t tm s) = Inr r"
proof (cases "cache_fresh (BITCOIN_CACHE s) t")
  case True
  then show ?thesis by (simp add: get_bitcoin_price_fresh)
next
  case False
  obtain m where m: "fst (get_mempool_data tm s) = Inr m"
    using get_mempool_data_returns by blast
  obtain c where c: "fst (get_coingecko_price_change (snd (get_mempool_data tm s))) = Inr c"
    using get_coingecko_price_change_returns by blast
  show ?thesis
    by (simp add: get_bitcoin_price_stale [OF False m c] split: sum.split option.split)
qed

lemma get_bitcoin_price_stale_cache:
  assumes "\<not> cache_fresh (BITCOIN_CACHE s) t"
  shows "fst (get_bitcoin_price t tm s) = Inr None \<Longrightarrow>
           BITCOIN_CACHE (snd (get_bitcoin_price t tm s)) = BITCOIN_CACHE s"
    and "fst (get_bitcoin_price t tm s) = Inr (Some b) \<Longrightarrow>
           BITCOIN_CACHE (snd (get_bitcoin_price t tm s)) = \<lparr>data = Some b, last_updated = Some t\<rparr>"
    and "length (fetch_log s) < length (fetch_log (snd (get_bitcoin_price t tm s)))"
proof -
  define s1 where "s1 = snd (get_mempool_data tm s)"
  define s2 where "s2 = snd (get_coingecko_price_change s1)"
  define s3 where "s3 = fst (snd (api_request_with_backoff fetch_coingecko 5 1 s2))"
  obtain m where m: "fst (get_mempool_data tm s) = Inr m"
    using get_mempool_data_returns by blast
  obtain c where c: "fst (get_coingecko_price_change (snd (get_mempool_data tm s))) = Inr c"
    using get_coingecko_price_change_returns by blast
  have b: "BITCOIN_CACHE s1 = BITCOIN_CACHE s" "BITCOIN_CACHE s2 = BITCOIN_CACHE s"
    "BITCOIN_CACHE s3 = BITCOIN_CACHE s"
    by (simp_all add: s1_def s2_def s3_def get_mempool_data_effect
          get_coingecko_price_change_effect price_backoff_effect)
  have l1: "length (fetch_log s) \<le> length (fetch_log s1)"
    by (simp add: s1_def get_mempool_data_effect)
  have l2: "length (fetch_log s1) < length (fetch_log s2)"
    by (simp add: s2_def get_coingecko_price_change_effect)
  have l3: "length (fetch_log s2) < length (fetch_log s3)"
    by (simp add: s3_def price_backoff_effect)
  note e = get_bitcoin_price_stale [OF assms m c, folded s1_def, folded s2_def, folded s3_def]
  show "fst (get_bitcoin_price t tm s) = Inr None \<Longrightarrow>
           BITCOIN_CACHE (snd (get_bitcoin_price t tm s)) = BITCOIN_CACHE s"
    unfolding e using b by (auto split: sum.splits option.splits)
  show "fst (get_bitcoin_price t tm s) = Inr (Some b) \<Longrightarrow>
           BITCOIN_CACHE (snd (get_bitcoin_price t tm s)) = \<lparr>data = Some b, last_updated = Some t\<rparr>"
    unfolding e by (auto split: sum.splits option.splits)
  show "length (fetch_log s) < length (fetch_log (snd (get_bitcoin_price t tm s)))"
    unfolding e using l1 l2 l3 by (auto split: sum.splits option.splits)
qed

lemma get_bitcoin_price_fails:
  assumes "\<not> cache_fresh (BITCOIN_CACHE s) t"
      and "fst (get_mempool_data tm s) = Inr None"
      and "fst (api_request_with_backoff fetch_coingecko 5 1
             (snd (get_coingecko_price_change (snd (get_mempool_data tm s))))) = Inl e"
  shows "fst (get_bitcoin_price t tm s) = Inr None"
proof -
  obtain c where c: "fst (get_coingecko_price_change (snd (get_mempool_data tm s))) = Inr c"
    using get_coingecko_price_change_returns by blast
  show ?thesis by (simp add: get_bitcoin_price_stale [OF assms(1,2) c] assms(3))
qed

text \<open>
  Claim C6. When a cache is not fresh and its underlying fetch fails (for the Mempool
  cache: the fetch under the backoff wrapper raises; for the Bitcoin cache: the Mempool
  level yields no data and the fallback fetch raises), the call returns \<open>None\<close>, not
  the stale cached value, and leaves the cached value and its time stamp as they were;
  a following call at the same or a later time makes a fetch request again.
\<close>

theorem cache_failure_isolation:
  "(\<not> cache_fresh (MEMPOOL_CACHE s) t
      \<and> fst (api_request_with_backoff mempool_fetch_data 5 1 s) = Inl e \<longrightarrow>
        fst (get_mempool_data t s) = Inr None
        \<and> MEMPOOL_CACHE (snd (get_mempool_data t s)) = MEMPOOL_CACHE s
        \<and> (t \<le> t' \<longrightarrow>
             length (fetch_log (snd (get_mempool_data t s)))
               < length (fetch_log (snd (get_mempool_data t' (snd (get_mempool_data t s)))))))
   \<and> (\<not> cache_fresh (BITCOIN_CACHE s) t
        \<and> fst (get_mempool_data tm s) = Inr None
        \<and> fst (api_request_with_backoff fetch_coingecko 5 1
                 (snd (get_coingecko_price_change (snd (get_mempool_data tm s))))) = Inl e' \<longrightarrow>
        fst (get_bitcoin_price t tm s) = Inr None
        \<and> BITCOIN_CACHE (snd (get_bitcoin_price t tm s)) = BITCOIN_CACHE s
        \<and> (t \<le> t' \<longrightarrow>
             length (fetch_log (snd (get_bitcoin_price t tm s)))
               < length (fetch_log (snd (get_bitcoin_price t' tm' (snd (get_bitcoin_price t tm s)))))))"
proof (intro conjI impI)
  assume a: "\<not> cache_fresh (MEMPOOL_CACHE s) t
      \<and> fst (api_request_with_backoff mempool_fetch_data 5 1 s) = Inl e"
  then have st: "\<not> cache_fresh (MEMPOOL_CACHE s) t"
    and f: "fst (api_request_with_backoff mempool_fetch_data 5 1 s) = Inl e" by simp_all
  show r: "fst (get_mempool_data t s) = Inr None"
    by (simp add: get_mempool_data_stale [OF st] f)
  show c: "MEMPOOL_CACHE (snd (get_mempool_data t s)) = MEMPOOL_CACHE s"
    by (simp add: get_mempool_data_stale [OF st] f mempool_backoff_effect)
  assume "t \<le> t'"
  with st c have "\<not> cache_fresh (MEMPOOL_CACHE (snd (get_mempool_data t s))) t'"
    by (simp add: cache_stale_later)
  then show "length (fetch_log (snd (get_mempool_data t s)))
               < length (fetch_log (snd (get_mempool_data t' (snd (get_mempool_data t s)))))"
    by (rule get_mempool_data_effect(3))
next
  assume a: "\<not> cache_fresh (BITCOIN_CACHE s) t
        \<and> fst (get_mempool_data tm s) = Inr None
        \<and> fst (api_request_with_backoff fetch_coingecko 5 1
                 (snd (get_coingecko_price_change (snd (get_mempool_data tm s))))) = Inl e'"
  then have st: "\<not> cache_fresh (BITCOIN_CACHE s) t"
    and m: "fst (get_mempool_data tm s) = Inr None"
    and f: "fst (api_request_with_backoff fetch_coingecko 5 1
                 (snd (get_coingecko_price_change (snd (get_mempool_data tm s))))) = Inl e'"
    by simp_all
  show r: "fst (get_bitcoin_price t tm s) = Inr None"
    using st m f by (rule get_bitcoin_price_fails)
  show c: "BITCOIN_CACHE (snd (get_bitcoin_price t tm s)) = BITCOIN_CACHE s"
    using st r by (rule get_bitcoin_price_stale_cache(1))
  assume "t \<le> t'"
  with st c have "\<not> cache_fresh (BITCOIN_CACHE (snd (get_bitcoin_price t tm s))) t'"
    by (simp add: cache_stale_later)
  then show "length (fetch_log (snd (get_bitcoin_price t tm s)))
               < length (fetch_log (snd (get_bitcoin_price t' tm' (snd (get_bitcoin_price t tm s)))))"
    by (rule get_bitcoin_price_stale_cache(3))
qed

theorem cache_failure_isolation_witness:
  "fst (get_mempool_data 61000000 stale_sys) = Inr None
   \<and> MEMPOOL_CACHE (snd (get_mempool_data 61000000 stale_sys)) = MEMPOOL_CACHE stale_sys
   \<and> length (fetch_log (snd (get_mempool_data 61000000 stale_sys)))
       < length (fetch_log (snd (get_mempool_data 61000000
                                   (snd (get_mempool_data 61000000 stale_sys)))))
   \<and> fst (get_bitcoin_price 61000000 61000000 stale_sys) = Inr None
   \<and> BITCOIN_CACHE (snd (get_bitcoin_price 61000000 61000000 stale_sys))
       = BITCOIN_CACHE stale_sys
   \<and> length (fetch_log (snd (get_bitcoin_price 61000000 61000000 stale_sys)))
       < length (fetch_log (snd (get_bitcoin_price 61000000 61000000
                                   (snd (get_bitcoin_price 61000000 61000000 stale_sys)))))"
proof -
  have h1: "\<not> cache_fresh (MEMPOOL_CACHE stale_sys) 61000000
      \<and> fst (api_request_with_backoff mempool_fetch_data 5 1 stale_sys)
          = Inl (RequestException ''timeout'')"
    by code_simp
  have h2: "\<not> cache_fresh (BITCOIN_CACHE stale_sys) 61000000
        \<and> fst (get_mempool_data 61000000 stale_sys) = Inr None
        \<and> fst (api_request_with_backoff fetch_coingecko 5 1
                 (snd (get_coingecko_price_change (snd (get_mempool_data 61000000 stale_sys)))))
            = Inl (RequestException ''connection failed'')"
    by code_simp
  have le: "(61000000::int) \<le> 61000000" by simp
  note t = cache_failure_isolation [where s = stale_sys and t = 61000000 and t' = 61000000
      and tm = 61000000 and tm' = 61000000 and e = "RequestException ''timeout''"
      and e' = "RequestException ''connection failed''"]
  note a = t [THEN conjunct1, THEN mp, OF h1]
  note b = t [THEN conjunct2, THEN mp, OF h2]
  show ?thesis
    by (rule conjI [OF a [THEN conjunct1] conjI [OF a [THEN conjunct2, THEN conjunct1]
          conjI [OF a [THEN conjunct2, THEN conjunct2, THEN mp, OF le]
          conjI [OF b [THEN conjunct1] conjI [OF b [THEN conjunct2, THEN conjunct1]
            b [THEN conjunct2, THEN conjunct2, THEN mp, OF le]]]]]])
qed

lemma get_mempool_data_success:
  assumes "\<not> cache_fresh (MEMPOOL_CACHE s) t" and "mempool_api s = Inr d # rest"
  shows "get_mempool_data t s =
           (Inr (Some d),
            s\<lparr>mempool_api := rest, fetch_log := fetch_log s @ [MempoolFetch],
               MEMPOOL_CACHE := \<lparr>data = Some d, last_updated = Some t\<rparr>\<rparr>)"
proof -
  have f: "mempool_fetch_data s
      = (Inr d, s\<lparr>mempool_api := rest, fetch_log := fetch_log s @ [MempoolFetch]\<rparr>)"
    by (simp add: mempool_fetch_data_def assms(2))
  have "api_request_with_backoff mempool_fetch_data 5 1 s
      = (Inr d, s\<lparr>mempool_api := rest, fetch_log := fetch_log s @ [MempoolFetch]\<rparr>, [Invoke])"
    unfolding api_request_with_backoff_def
    by (rule loop_success [where func = mempool_fetch_data and s = s, OF _ f]) simp
  then show ?thesis using assms(1) by (simp add: get_mempool_data_def)
qed

lemma get_mempool_data_stale_cache:
  assumes "\<not> cache_fresh (MEMPOOL_CACHE s) t" and "fst (get_mempool_data t s) = Inr (Some d)"
  shows "MEMPOOL_CACHE (snd (get_mempool_data t s)) = \<lparr>data = Some d, last_updated = Some t\<rparr>"
  using assms(2) unfolding get_mempool_data_stale [OF assms(1)]
  by (auto split: sum.splits)

lemma cache_stale_after:
  "last_updated c = Some lu \<Longrightarrow> timedelta_seconds 61 \<le> t - lu \<Longrightarrow> \<not> cache_fresh c t"
  by (simp add: cache_fresh_def timedelta_seconds_def)

lemma cache_fresh_within:
  "last_updated c = Some lu \<Longrightarrow> t - lu < timedelta_seconds 60 \<Longrightarrow> cache_fresh c t"
  by (simp add: cache_fresh_def)

text \<open>
  Claim C7. The time to live is 60 seconds. If a cache holds a value whose time stamp is
  less than 60 seconds before the current time, the call returns the cached data and
  changes nothing, so it makes no fetch request; hence a successful fetch followed by a
  call within 60 seconds makes exactly one request. A call 61 seconds or more after the
  time stamp makes a fetch request again, and when it returns data the cache holds that
  data stamped with the current time.
\<close>

theorem cache_freshness:
  "(last_updated (MEMPOOL_CACHE s) = Some lu \<and> t - lu < timedelta_seconds 60 \<longrightarrow>
      get_mempool_data t s = (Inr (data (MEMPOOL_CACHE s)), s))
   \<and> (last_updated (BITCOIN_CACHE s) = Some lu \<and> t - lu < timedelta_seconds 60 \<longrightarrow>
      get_bitcoin_price t tm s = (Inr (data (BITCOIN_CACHE s)), s))
   \<and> (\<not> cache_fresh (MEMPOOL_CACHE s) t1 \<and> mempool_api s = Inr d # rest
        \<and> t2 - t1 < timedelta_seconds 60 \<longrightarrow>
      get_mempool_data t1 s =
        (Inr (Some d),
         s\<lparr>mempool_api := rest, fetch_log := fetch_log s @ [MempoolFetch],
            MEMPOOL_CACHE := \<lparr>data = Some d, last_updated = Some t1\<rparr>\<rparr>)
      \<and> get_mempool_data t2 (snd (get_mempool_data t1 s))
           = (Inr (Some d), snd (get_mempool_data t1 s)))
   \<and> (last_updated (MEMPOOL_CACHE s) = Some lu \<and> timedelta_seconds 61 \<le> t - lu \<longrightarrow>
      length (fetch_log s) < length (fetch_log (snd (get_mempool_data t s)))
      \<and> (fst (get_mempool_data t s) = Inr (Some d') \<longrightarrow>
           MEMPOOL_CACHE (snd (get_mempool_data t s))
             = \<lparr>data = Some d', last_updated = Some t\<rparr>))
   \<and> (last_updated (BITCOIN_CACHE s) = Some lu \<and> timedelta_seconds 61 \<le> t - lu \<longrightarrow>
      length (fetch_log s) < length (fetch_log (snd (get_bitcoin_price t tm s)))
      \<and> (fst (get_bitcoin_price t tm s) = Inr (Some b) \<longrightarrow>
           BITCOIN_CACHE (snd (get_bitcoin_price t tm s))
             = \<lparr>data = Some b, last_updated = Some t\<rparr>))"
proof (intro conjI impI)
  assume "last_updated (MEMPOOL_CACHE s) = Some lu \<and> t - lu < timedelta_seconds 60"
  then have "cache_fresh (MEMPOOL_CACHE s) t" by (simp add: cache_fresh_within)
  then show "get_mempool_data t s = (Inr (data (MEMPOOL_CACHE s)), s)"
    by (rule get_mempool_data_fresh)
next
  assume "last_updated (BITCOIN_CACHE s) = Some lu \<and> t - lu < timedelta_seconds 60"
  then have "cache_fresh (BITCOIN_CACHE s) t" by (simp add: cache_fresh_within)
  then show "get_bitcoin_price t tm s = (Inr (data (BITCOIN_CACHE s)), s)"
    by (rule get_bitcoin_price_fresh)
next
  assume a: "\<not> cache_fresh (MEMPOOL_CACHE s) t1 \<and> mempool_api s = Inr d # rest
        \<and> t2 - t1 < timedelta_seconds 60"
  then have st: "\<not> cache_fresh (MEMPOOL_CACHE s) t1" and ap: "mempool_api s = Inr d # rest"
    and w: "t2 - t1 < timedelta_seconds 60" by simp_all
  note first = get_mempool_data_success [OF st ap]
  show "get_mempool_data t1 s =
        (Inr (Some d),
         s\<lparr>mempool_api := rest, fetch_log := fetch_log s @ [MempoolFetch],
            MEMPOOL_CACHE := \<lparr>data = Some d, last_updated = Some t1\<rparr>\<rparr>)"
    by (rule first)
  have "cache_fresh (MEMPOOL_CACHE (snd (get_mempool_data t1 s))) t2"
    using w by (simp add: first cache_fresh_def)
  from get_mempool_data_fresh [OF this]
  show "get_mempool_data t2 (snd (get_mempool_data t1 s))
           = (Inr (Some d), snd (get_mempool_data t1 s))"
    by (simp add: first)
next
  assume a: "last_updated (MEMPOOL_CACHE s) = Some lu \<and> timedelta_seconds 61 \<le> t - lu"
  then have st: "\<not> cache_fresh (MEMPOOL_CACHE s) t" by (simp add: cache_stale_after)
  show "length (fetch_log s) < length (fetch_log (snd (get_mempool_data t s)))"
    using st by (rule get_mempool_data_effect(3))
  assume "fst (get_mempool_data t s) = Inr (Some d')"
  with st show "MEMPOOL_CACHE (snd (get_mempool_data t s))
             = \<lparr>data = Some d', last_updated = Some t\<rparr>"
    by (rule get_mempool_data_stale_cache)
next
  assume a: "last_updated (BITCOIN_CACHE s) = Some lu \<and> timedelta_seconds 61 \<le> t - lu"
  then have st: "\<not> cache_fresh (BITCOIN_CACHE s) t" by (simp add: cache_stale_after)
  show "length (fetch_log s) < length (fetch_log (snd (get_bitcoin_price t tm s)))"
    using st by (rule get_bitcoin_price_stale_cache(3))
  assume "fst (get_bitcoin_price t tm s) = Inr (Some b)"
  with st show "BITCOIN_CACHE (snd (get_bitcoin_price t tm s))
             = \<lparr>data = Some b, last_updated = Some t\<rparr>"
    by (rule get_bitcoin_price_stale_cache(2))
qed

theorem cache_freshness_witness:
  "get_mempool_data 59999999 warm_sys = (Inr (data (MEMPOOL_CACHE warm_sys)), warm_sys)
   \<and> get_bitcoin_price 59999999 59999999 warm_sys
        = (Inr (data (BITCOIN_CACHE warm_sys)), warm_sys)
   \<and> fetch_log (snd (get_mempool_data 59999999 (snd (get_mempool_data 0
         (start_sys [Inr \<lparr>price_eur = 30000, price_usd = 33000, fee = 12\<rparr>] [] [])))))
        = [MempoolFetch]
   \<and> length (fetch_log warm_sys) < length (fetch_log (snd (get_mempool_data 61000000 warm_sys)))
   \<and> MEMPOOL_CACHE (snd (get_mempool_data 61000000 warm_sys))
        = \<lparr>data = Some \<lparr>price_eur = 31000, price_usd = 34000, fee = 15\<rparr>,
           last_updated = Some 61000000\<rparr>
   \<and> length (fetch_log warm_sys)
        < length (fetch_log (snd (get_bitcoin_price 61000000 61000000 warm_sys)))
   \<and> BITCOIN_CACHE (snd (get_bitcoin_price 61000000 61000000 warm_sys))
        = \<lparr>data = Some \<lparr>eur = Some 31000, usd = Some 34000, eur_24h_change = Some 3,
                         suggested_fee = Some 15\<rparr>,
           last_updated = Some 61000000\<rparr>"
proof -
  let ?s0 = "start_sys [Inr \<lparr>price_eur = 30000, price_usd = 33000, fee = 12\<rparr>] [] []"
  let ?d = "\<lparr>price_eur = 30000, price_usd = 33000, fee = 12\<rparr>"
  let ?d' = "\<lparr>price_eur = 31000, price_usd = 34000, fee = 15\<rparr>"
  let ?b = "\<lparr>eur = Some 31000, usd = Some 34000, eur_24h_change = Some 3,
             suggested_fee = Some 15\<rparr>"
  have h1: "last_updated (MEMPOOL_CACHE warm_sys) = Some 0
      \<and> 59999999 - 0 < timedelta_seconds 60" by code_simp
  have h2: "last_updated (BITCOIN_CACHE warm_sys) = Some 0
      \<and> 59999999 - 0 < timedelta_seconds 60" by code_simp
  have h3: "\<not> cache_fresh (MEMPOOL_CACHE ?s0) 0 \<and> mempool_api ?s0 = Inr ?d # []
      \<and> 59999999 - 0 < timedelta_seconds 60" by code_simp
  have h4: "last_updated (MEMPOOL_CACHE warm_sys) = Some 0
      \<and> timedelta_seconds 61 \<le> 61000000 - 0" by code_simp
  have h5: "last_updated (BITCOIN_CACHE warm_sys) = Some 0
      \<and> timedelta_seconds 61 \<le> 61000000 - 0" by code_simp
  have h6: "fst (get_mempool_data 61000000 warm_sys) = Inr (Some ?d')" by code_simp
  have h7: "fst (get_bitcoin_price 61000000 61000000 warm_sys) = Inr (Some ?b)" by code_simp
  note a = cache_freshness [where s = warm_sys and lu = 0 and t = 59999999 and tm = 59999999]
  note b = cache_freshness [where s = ?s0 and ?t1.0 = 0 and ?t2.0 = 59999999 and d = ?d
      and rest = "[]"]
  note c = cache_freshness [where s = warm_sys and lu = 0 and t = 61000000 and tm = 61000000
      and d' = ?d' and b = ?b]
  note a1 = a [THEN conjunct1, THEN mp, OF h1]
  note a2 = a [THEN conjunct2, THEN conjunct1, THEN mp, OF h2]
  note b1 = b [THEN conjunct2, THEN conjunct2, THEN conjunct1, THEN mp, OF h3]
  note c1 = c [THEN conjunct2, THEN conjunct2, THEN conjunct2, THEN conjunct1, THEN mp, OF h4]
  note c2 = c [THEN conjunct2, THEN conjunct2, THEN conjunct2, THEN conjunct2, THEN mp, OF h5]
  have "fetch_log (snd (get_mempool_data 59999999 (snd (get_mempool_data 0 ?s0))))
        = fetch_log (snd (get_mempool_data 0 ?s0))"
    by (simp only: b1 [THEN conjunct2] snd_conv)
  also have "\<dots> = fetch_log (?s0\<lparr>mempool_api := [],
        fetch_log := fetch_log ?s0 @ [MempoolFetch],
        MEMPOOL_CACHE := \<lparr>data = Some ?d, last_updated = Some 0\<rparr>\<rparr>)"
    by (simp only: b1 [THEN conjunct1] snd_conv)
  also have "\<dots> = [MempoolFetch]"
    by (simp add: start_sys_def)
  finally have b2: "fetch_log (snd (get_mempool_data 59999999 (snd (get_mempool_data 0 ?s0))))
        = [MempoolFetch]" .
  show ?thesis
    by (rule conjI [OF a1 conjI [OF a2 conjI [OF b2 conjI [OF c1 [THEN conjunct1]
          conjI [OF c1 [THEN conjunct2, THEN mp, OF h6] conjI [OF c2 [THEN conjunct1]
            c2 [THEN conjunct2, THEN mp, OF h7]]]]]]])
qed

text \<open>
  Claim C10. Under the backoff wrapper the cache-level fetchers (get_mempool_data,
  get_coingecko_price_change, get_bitcoin_price) are invoked exactly once and never slept
  on or retried, because they always return a value: they catch every exception of
  their fetch and return \<open>None\<close>. So when the underlying fetch fails, the wrapper
  returns \<open>None\<close> as a successful result after one invocation.
\<close>

theorem cache_fetchers_never_retried:
  "api_request_with_backoff (get_mempool_data t) 5 1 s
      = (fst (get_mempool_data t s), snd (get_mempool_data t s), [Invoke])
   \<and> api_request_with_backoff get_coingecko_price_change 5 1 s
      = (fst (get_coingecko_price_change s), snd (get_coingecko_price_change s), [Invoke])
   \<and> api_request_with_backoff (get_bitcoin_price t tm) 5 1 s
      = (fst (get_bitcoin_price t tm s), snd (get_bitcoin_price t tm s), [Invoke])
   \<and> (\<exists>r. fst (get_mempool_data t s) = Inr r)
   \<and> (\<exists>r. fst (get_coingecko_price_change s) = Inr r)
   \<and> (\<exists>r. fst (get_bitcoin_price t tm s) = Inr r)
   \<and> (\<not> cache_fresh (MEMPOOL_CACHE s) t
        \<and> fst (api_request_with_backoff mempool_fetch_data 5 1 s) = Inl e \<longrightarrow>
      api_request_with_backoff (get_mempool_data t) 5 1 s
        = (Inr None, snd (get_mempool_data t s), [Invoke]))
   \<and> (fst (api_request_with_backoff change_fetch_data 5 1 s) = Inl e \<longrightarrow>
      api_request_with_backoff get_coingecko_price_change 5 1 s
        = (Inr None, snd (get_coingecko_price_change s), [Invoke]))
   \<and> (\<not> cache_fresh (BITCOIN_CACHE s) t
        \<and> fst (get_mempool_data tm s) = Inr None
        \<and> fst (api_request_with_backoff fetch_coingecko 5 1
                 (snd (get_coingecko_price_change (snd (get_mempool_data tm s))))) = Inl e \<longrightarrow>
      api_request_with_backoff (get_bitcoin_price t tm) 5 1 s
        = (Inr None, snd (get_bitcoin_price t tm s), [Invoke]))"
proof -
  obtain rm where rm: "fst (get_mempool_data t s) = Inr rm"
    using get_mempool_data_returns by blast
  obtain rc where rc: "fst (get_coingecko_price_change s) = Inr rc"
    using get_coingecko_price_change_returns by blast
  obtain rb where rb: "fst (get_bitcoin_price t tm s) = Inr rb"
    using get_bitcoin_price_returns by blast
  have wm: "api_request_with_backoff (get_mempool_data t) 5 1 s
      = (fst (get_mempool_data t s), snd (get_mempool_data t s), [Invoke])"
    using backoff_returning [where func = "get_mempool_data t" and s = s, OF rm, of 5 1]
    by (simp add: rm)
  have wc: "api_request_with_backoff get_coingecko_price_change 5 1 s
      = (fst (get_coingecko_price_change s), snd (get_coingecko_price_change s), [Invoke])"
    using backoff_returning [where func = get_coingecko_price_change and s = s, OF rc, of 5 1]
    by (simp add: rc)
  have wb: "api_request_with_backoff (get_bitcoin_price t tm) 5 1 s
      = (fst (get_bitcoin_price t tm s), snd (get_bitcoin_price t tm s), [Invoke])"
    using backoff_returning [where func = "get_bitcoin_price t tm" and s = s, OF rb, of 5 1]
    by (simp add: rb)
  have fm: "\<not> cache_fresh (MEMPOOL_CACHE s) t
        \<and> fst (api_request_with_backoff mempool_fetch_data 5 1 s) = Inl e \<longrightarrow>
      api_request_with_backoff (get_mempool_data t) 5 1 s
        = (Inr None, snd (get_mempool_data t s), [Invoke])"
  proof
    assume a: "\<not> cache_fresh (MEMPOOL_CACHE s) t
        \<and> fst (api_request_with_backoff mempool_fetch_data 5 1 s) = Inl e"
    then have "fst (get_mempool_data t s) = Inr None"
      by (simp add: get_mempool_data_stale)
    then show "api_request_with_backoff (get_mempool_data t) 5 1 s
        = (Inr None, snd (get_mempool_data t s), [Invoke])"
      by (simp add: wm)
  qed
  have fc: "fst (api_request_with_backoff change_fetch_data 5 1 s) = Inl e \<longrightarrow>
      api_request_with_backoff get_coingecko_price_change 5 1 s
        = (Inr None, snd (get_coingecko_price_change s), [Invoke])"
  proof
    assume "fst (api_request_with_backoff change_fetch_data 5 1 s) = Inl e"
    then have "fst (get_coingecko_price_change s) = Inr None"
      by (simp add: get_coingecko_price_change_eq)
    then show "api_request_with_backoff get_coingecko_price_change 5 1 s
        = (Inr None, snd (get_coingecko_price_change s), [Invoke])"
      by (simp add: wc)
  qed
  have fb: "\<not> cache_fresh (BITCOIN_CACHE s) t
        \<and> fst (get_mempool_data tm s) = Inr None
        \<and> fst (api_request_with_backoff fetch_coingecko 5 1
                 (snd (get_coingecko_price_change (snd (get_mempool_data tm s))))) = Inl e \<longrightarrow>
      api_request_with_backoff (get_bitcoin_price t tm) 5 1 s
        = (Inr None, snd (get_bitcoin_price t tm s), [Invoke])"
  proof
    assume a: "\<not> cache_fresh (BITCOIN_CACHE s) t
        \<and> fst (get_mempool_data tm s) = Inr None
        \<and> fst (api_request_with_backoff fetch_coingecko 5 1
                 (snd (get_coingecko_price_change (snd (get_mempool_data tm s))))) = Inl e"
    have "fst (get_bitcoin_price t tm s) = Inr None"
      by (rule get_bitcoin_price_fails [of s t tm e]) (simp_all add: a)
    then show "api_request_with_backoff (get_bitcoin_price t tm) 5 1 s
        = (Inr None, snd (get_bitcoin_price t tm s), [Invoke])"
      by (simp add: wb)
  qed
  from rm have em: "\<exists>r. fst (get_mempool_data t s) = Inr r" by blast
  from rc have ec: "\<exists>r. fst (get_coingecko_price_change s) = Inr r" by blast
  from rb have eb: "\<exists>r. fst (get_bitcoin_price t tm s) = Inr r" by blast
  show ?thesis
    by (rule conjI [OF wm conjI [OF wc conjI [OF wb conjI [OF em conjI [OF ec conjI [OF eb
          conjI [OF fm conjI [OF fc fb]]]]]]]])
qed

theorem cache_fetchers_never_retried_witness:
  "api_request_with_backoff (get_mempool_data 61000000) 5 1 stale_sys
      = (Inr None, snd (get_mempool_data 61000000 stale_sys), [Invoke])
   \<and> api_request_with_backoff get_coingecko_price_change 5 1 stale_sys
      = (Inr None, snd (get_coingecko_price_change stale_sys), [Invoke])
   \<and> api_request_with_backoff (get_bitcoin_price 61000000 61000000) 5 1 stale_sys
      = (Inr None, snd (get_bitcoin_price 61000000 61000000 stale_sys), [Invoke])"
proof -
  have h1: "\<not> cache_fresh (MEMPOOL_CACHE stale_sys) 61000000
      \<and> fst (api_request_with_backoff mempool_fetch_data 5 1 stale_sys)
          = Inl (RequestException ''timeout'')"
    by code_simp
  have h2: "fst (api_request_with_backoff change_fetch_data 5 1 stale_sys)
      = Inl (RequestException ''connection failed'')"
    by code_simp
  have h3: "\<not> cache_fresh (BITCOIN_CACHE stale_sys) 61000000
        \<and> fst (get_mempool_data 61000000 stale_sys) = Inr None
        \<and> fst (api_request_with_backoff fetch_coingecko 5 1
                 (snd (get_coingecko_price_change (snd (get_mempool_data 61000000 stale_sys)))))
            = Inl (RequestException ''connection failed'')"
    by code_simp
  note a = cache_fetchers_never_retried [where s = stale_sys and t = 61000000
      and tm = 61000000 and e = "RequestException ''timeout''"]
  note b = cache_fetchers_never_retried [where s = stale_sys and t = 61000000
      and tm = 61000000 and e = "RequestException ''connection failed''"]
  note c1 = a [THEN conjunct2, THEN conjunct2, THEN conjunct2, THEN conjunct2, THEN conjunct2,
      THEN conjunct2, THEN conjunct1, THEN mp, OF h1]
  note c2 = b [THEN conjunct2, THEN conjunct2, THEN conjunct2, THEN conjunct2, THEN conjunct2,
      THEN conjunct2, THEN conjunct2, THEN conjunct1, THEN mp, OF h2]
  note c3 = b [THEN conjunct2, THEN conjunct2, THEN conjunct2, THEN conjunct2, THEN conjunct2,
      THEN conjunct2, THEN conjunct2, THEN conjunct2, THEN mp, OF h3]
  show ?thesis by (rule conjI [OF c1 conjI [OF c2 c3]])
qed

section \<open>Properties of the next occurrence\<close>

lemma div_step: "0 < k \<Longrightarrow> (y::int) div k = (y - 1) div k + (if y mod k = 0 then 1 else 0)"
proof (cases "y mod k = 0")
  case True
  assume k: "0 < k"
  from True have "y = k * (y div k)" by (metis mult_div_mod_eq add.right_neutral)
  then have "y - 1 = k * (y div k - 1) + (k - 1)" by (simp add: algebra_simps)
  moreover have "0 \<le> k - 1" "k - 1 < k" using k by simp_all
  ultimately have "(y - 1) div k = y div k - 1"
    by (metis div_pos_pos_trivial add.commute add.right_neutral div_mult_self2 k less_irrefl)
  with True show ?thesis by simp
next
  case False
  assume k: "0 < k"
  have "y = k * (y div k) + y mod k" by simp
  then have "y - 1 = k * (y div k) + (y mod k - 1)" by simp
  moreover have "0 \<le> y mod k - 1" using False pos_mod_sign [OF k, of y] by linarith
  moreover have "y mod k - 1 < k" using pos_mod_bound [OF k, of y] by linarith
  ultimately have "(y - 1) div k = y div k"
    by (metis div_pos_pos_trivial add.commute add.right_neutral div_mult_self2 k less_irrefl)
  with False show ?thesis by simp
qed


lemma mod_400_100: "(y::int) mod 400 = 0 \<Longrightarrow> y mod 100 = 0"
proof -
  assume "y mod 400 = 0"
  then have "400 dvd y" by (simp only: mod_eq_0_iff_dvd)
  moreover have "(100::int) dvd 400" by simp
  ultimately have "100 dvd y" by (rule dvd_trans [rotated])
  then show ?thesis by (simp only: mod_eq_0_iff_dvd)
qed

lemma mod_100_4: "(y::int) mod 100 = 0 \<Longrightarrow> y mod 4 = 0"
proof -
  assume "y mod 100 = 0"
  then have "100 dvd y" by (simp only: mod_eq_0_iff_dvd)
  moreover have "(4::int) dvd 100" by simp
  ultimately have "4 dvd y" by (rule dvd_trans [rotated])
  then show ?thesis by (simp only: mod_eq_0_iff_dvd)
qed


lemma leap_step_arith:
  fixes y q4 p4 q100 p100 q400 p400 :: int
  assumes "q4 = p4 + (if l4 then 1 else 0)"
      and "q100 = p100 + (if l100 then 1 else 0)"
      and "q400 = p400 + (if l400 then 1 else 0)"
      and "l400 \<longrightarrow> l100" and "l100 \<longrightarrow> l4"
  shows "y * 365 + q4 - q100 + q400
           = (y - 1) * 365 + p4 - p100 + p400 + (if l4 \<and> (\<not> l100 \<or> l400) then 366 else 365)"
  using assms by (cases l4; cases l100; cases l400) (simp_all add: algebra_simps)

lemma dby_Suc: "days_before_year (y + 1) = days_before_year y + (if is_leap y then 366 else 365)"
proof -
  have a: "y div 4 = (y - 1) div 4 + (if y mod 4 = 0 then 1 else 0)" by (rule div_step) simp
  have b: "y div 100 = (y - 1) div 100 + (if y mod 100 = 0 then 1 else 0)"
    by (rule div_step) simp
  have c: "y div 400 = (y - 1) div 400 + (if y mod 400 = 0 then 1 else 0)"
    by (rule div_step) simp
  have i1: "y mod 400 = 0 \<longrightarrow> y mod 100 = 0" by (rule impI) (rule mod_400_100)
  have i2: "y mod 100 = 0 \<longrightarrow> y mod 4 = 0" by (rule impI) (rule mod_100_4)
  have e1: "days_before_year (y + 1) = y * 365 + y div 4 - y div 100 + y div 400"
    by (simp add: days_before_year_def)
  have e0: "days_before_year y = (y - 1) * 365 + (y - 1) div 4 - (y - 1) div 100 + (y - 1) div 400"
    by (simp add: days_before_year_def)
  have l: "is_leap y = (y mod 4 = 0 \<and> (\<not> y mod 100 = 0 \<or> y mod 400 = 0))"
    by (simp only: is_leap_def)
  show ?thesis
    unfolding e1 e0 l by (rule leap_step_arith [OF a b c i1 i2])
qed

lemma month_cases: "1 \<le> m \<Longrightarrow> m \<le> 12 \<Longrightarrow>
  m = 1 \<or> m = 2 \<or> m = 3 \<or> m = 4 \<or> m = 5 \<or> m = 6 \<or> m = 7 \<or> m = 8 \<or> m = 9 \<or> m = 10 \<or> m = 11 \<or> m = (12::int)"
  by arith

lemma dbm_next:
  assumes "1 \<le> m" and "m \<le> 12"
  shows "days_before_month y m + days_in_month y m
           = (if m = 12 then (if is_leap y then 366 else 365) else days_before_month y (m + 1))"
  using month_cases [OF assms]
  by (elim disjE) (simp_all add: days_before_month_def days_in_month_def)

lemma dbm_mono_step:
  assumes "1 \<le> m" and "m < 12"
  shows "days_before_month y m \<le> days_before_month y (m + 1)"
proof -
  from assms have "m \<le> 12" by simp
  from dbm_next [OF assms(1) this, of y] assms(2)
  have "days_before_month y (m + 1) = days_before_month y m + days_in_month y m" by simp
  moreover have "0 \<le> days_in_month y m" by (simp add: days_in_month_def)
  ultimately show ?thesis by simp
qed

lemma dbm_mono:
  assumes "1 \<le> m" and "m \<le> m'" and "m' \<le> 12"
  shows "days_before_month y m \<le> days_before_month y m'"
proof -
  have "\<And>k. m + int k \<le> 12 \<Longrightarrow> days_before_month y m \<le> days_before_month y (m + int k)"
  proof -
    fix k show "m + int k \<le> 12 \<Longrightarrow> days_before_month y m \<le> days_before_month y (m + int k)"
    proof (induction k)
      case 0
      then show ?case by simp
    next
      case (Suc k)
      then have ih: "days_before_month y m \<le> days_before_month y (m + int k)" by simp
      from Suc.prems assms(1) have "1 \<le> m + int k" "m + int k < 12" by simp_all
      from dbm_mono_step [OF this, of y] have
        "days_before_month y (m + int k) \<le> days_before_month y (m + int (Suc k))"
        by (simp add: add.assoc add.commute [of 1])
      with ih show ?case by simp
    qed
  qed
  from this [of "nat (m' - m)"] assms(2,3) show ?thesis by simp
qed

lemma dbm_bound:
  assumes "valid_date y m d"
  shows "days_before_month y m + d \<le> (if is_leap y then 366 else 365)"
proof -
  from assms have m: "1 \<le> m" "m \<le> 12" and d: "d \<le> days_in_month y m"
    by (simp_all add: valid_date_def)
  have "days_before_month y m + days_in_month y m \<le> (if is_leap y then 366 else 365)"
  proof (cases "m = 12")
    case True
    then show ?thesis using dbm_next [OF m, of y] by simp
  next
    case False
    with m have lt: "m + 1 \<le> 12" by simp
    have "days_before_month y (m + 1) \<le> days_before_month y 12"
      by (rule dbm_mono) (use m lt in simp_all)
    also have "\<dots> \<le> (if is_leap y then 366 else 365)"
      by (simp add: days_before_month_def)
    finally show ?thesis using dbm_next [OF m, of y] False by simp
  qed
  with d show ?thesis by simp
qed

lemma dbm_step:
  assumes "valid_date y m d" and "m < m'" and "m' \<le> 12"
  shows "days_before_month y m + d \<le> days_before_month y m'"
proof -
  from assms(1) have m: "1 \<le> m" "m \<le> 12" and d: "d \<le> days_in_month y m"
    by (simp_all add: valid_date_def)
  from assms(2,3) have ne: "m \<noteq> 12" by simp
  have "days_before_month y m + d \<le> days_before_month y m + days_in_month y m"
    using d by simp
  also have "\<dots> = days_before_month y (m + 1)" using dbm_next [OF m, of y] ne by simp
  also have "\<dots> \<le> days_before_month y m'"
    by (rule dbm_mono) (use m assms(2,3) in simp_all)
  finally show ?thesis .
qed

lemma ordinal_same_year:
  assumes "valid_date y m d" and "valid_date y m' d'"
      and "m < m' \<or> (m = m' \<and> d < d')"
  shows "days_before_month y m + d < days_before_month y m' + d'"
proof (cases "m < m'")
  case True
  from assms(2) have "m' \<le> 12" "1 \<le> d'" by (simp_all add: valid_date_def)
  with dbm_step [OF assms(1) True] show ?thesis by simp
next
  case False
  with assms(3) show ?thesis by simp
qed

lemma ordinal_next_year:
  assumes "valid_date y m d" and "valid_date (y + 1) m' d'"
  shows "days_before_year y + days_before_month y m + d
           < days_before_year (y + 1) + days_before_month (y + 1) m' + d'"
proof -
  from assms(2) have m': "1 \<le> m'" "m' \<le> 12" and d': "1 \<le> d'"
    by (simp_all add: valid_date_def)
  have "days_before_month (y + 1) 1 \<le> days_before_month (y + 1) m'"
    by (rule dbm_mono) (use m' in simp_all)
  then have "0 \<le> days_before_month (y + 1) m'" by (simp add: days_before_month_def)
  with dbm_bound [OF assms(1)] d' show ?thesis
    by (simp add: dby_Suc)
qed

lemma this_year_birthday_result:
  assumes t: "valid_date (year today) (month today) (day today)"
      and c: "valid_date (year today) (month b) (day b)"
      and n: "date_less (b\<lparr>year := year today\<rparr>) today
                \<longrightarrow> valid_date (year today + 1) (month b) (day b)"
  shows "this_year_birthday b today =
           Inr (if date_less (b\<lparr>year := year today\<rparr>) today
                then b\<lparr>year := year today + 1\<rparr> else b\<lparr>year := year today\<rparr>,
                toordinal (if date_less (b\<lparr>year := year today\<rparr>) today
                           then b\<lparr>year := year today + 1\<rparr> else b\<lparr>year := year today\<rparr>)
                  - toordinal today)"
  using c n by (simp add: this_year_birthday_def replace_year_def)

lemma days_left_nonneg:
  assumes t: "valid_date (year today) (month today) (day today)"
      and c: "valid_date (year today) (month b) (day b)"
      and n: "date_less (b\<lparr>year := year today\<rparr>) today
                \<longrightarrow> valid_date (year today + 1) (month b) (day b)"
  shows "0 \<le> toordinal (if date_less (b\<lparr>year := year today\<rparr>) today
                           then b\<lparr>year := year today + 1\<rparr> else b\<lparr>year := year today\<rparr>)
                  - toordinal today"
    and "(toordinal (if date_less (b\<lparr>year := year today\<rparr>) today
                           then b\<lparr>year := year today + 1\<rparr> else b\<lparr>year := year today\<rparr>)
                  - toordinal today = 0) \<longleftrightarrow> (month b = month today \<and> day b = day today)"
proof -
  show "0 \<le> toordinal (if date_less (b\<lparr>year := year today\<rparr>) today
                           then b\<lparr>year := year today + 1\<rparr> else b\<lparr>year := year today\<rparr>)
                  - toordinal today"
  proof (cases "date_less (b\<lparr>year := year today\<rparr>) today")
    case True
    with n have v: "valid_date (year today + 1) (month b) (day b)" by simp
    from ordinal_next_year [OF t v] True show ?thesis by (simp add: toordinal_def)
  next
    case False
    then have "month today < month b \<or> (month today = month b \<and> day today < day b)
        \<or> (month today = month b \<and> day today = day b)"
      by (auto simp: date_less_def)
    then show ?thesis
    proof (elim disjE)
      assume "month today < month b"
      with ordinal_same_year [OF t c] False show ?thesis by (simp add: toordinal_def)
    next
      assume "month today = month b \<and> day today < day b"
      with ordinal_same_year [OF t c] False show ?thesis by (simp add: toordinal_def)
    next
      assume "month today = month b \<and> day today = day b"
      with False show ?thesis by (simp add: toordinal_def)
    qed
  qed
  show "(toordinal (if date_less (b\<lparr>year := year today\<rparr>) today
                           then b\<lparr>year := year today + 1\<rparr> else b\<lparr>year := year today\<rparr>)
                  - toordinal today = 0) \<longleftrightarrow> (month b = month today \<and> day b = day today)"
  proof (cases "date_less (b\<lparr>year := year today\<rparr>) today")
    case True
    with n have v: "valid_date (year today + 1) (month b) (day b)" by simp
    from True have "\<not> (month b = month today \<and> day b = day today)"
      by (auto simp: date_less_def)
    with ordinal_next_year [OF t v] True show ?thesis by (simp add: toordinal_def)
  next
    case False
    then have "month today < month b \<or> (month today = month b \<and> day today < day b)
        \<or> (month today = month b \<and> day today = day b)"
      by (auto simp: date_less_def)
    then show ?thesis
    proof (elim disjE)
      assume a: "month today < month b"
      with ordinal_same_year [OF t c] False show ?thesis by (simp add: toordinal_def)
    next
      assume a: "month today = month b \<and> day today < day b"
      with ordinal_same_year [OF t c] False show ?thesis by (simp add: toordinal_def)
    next
      assume "month today = month b \<and> day today = day b"
      with False show ?thesis by (simp add: toordinal_def)
    qed
  qed
qed

text \<open>
  Claim C8, as stated, fails for 29 February: with today = 2024-03-10 the candidate
  2024-02-29 is constructible and lies before today, but 2025-02-29 is not a date and
  \<open>replace\<close> raises ValueError, so no next occurrence is returned.
\<close>

theorem next_occurrence_leap_day_counterexample:
  "valid_date 2024 3 10 \<and> valid_date 2024 2 29
   \<and> date_less \<lparr>year = 2024, month = 2, day = 29\<rparr> \<lparr>year = 2024, month = 3, day = 10\<rparr>
   \<and> \<not> valid_date 2025 2 29
   \<and> this_year_birthday \<lparr>year = 2000, month = 2, day = 29\<rparr>
        \<lparr>year = 2024, month = 3, day = 10\<rparr>
          = Inl (ValueError ''day is out of range for month'')"
  by (simp add: this_year_birthday_def replace_year_def valid_date_def days_in_month_def
        date_less_def is_leap_def)

text \<open>
  Claim C8, amended. For every date today and every month and day such that the
  candidate in today's year is a date and, when that candidate lies before today, the
  same month and day in the following year is a date too: the next occurrence is the
  candidate if it is not before today and the same month and day of the following year
  otherwise; the number of days until it is not negative, and it is 0 exactly when the
  occurrence is today. For today = 2024-03-10 the next occurrence of 1 January is
  2025-01-01 and that of 25 December is 2024-12-25.
\<close>

theorem next_occurrence_when_constructible:
  assumes "valid_date (year today) (month today) (day today)"
      and "valid_date (year today) (month b) (day b)"
      and "date_less (b\<lparr>year := year today\<rparr>) today
             \<longrightarrow> valid_date (year today + 1) (month b) (day b)"
  shows "(\<exists>next days_left.
            this_year_birthday b today = Inr (next, days_left)
            \<and> next = (if date_less (b\<lparr>year := year today\<rparr>) today
                       then b\<lparr>year := year today + 1\<rparr> else b\<lparr>year := year today\<rparr>)
            \<and> days_left = toordinal next - toordinal today
            \<and> 0 \<le> days_left
            \<and> (days_left = 0 \<longleftrightarrow> month b = month today \<and> day b = day today))
         \<and> this_year_birthday \<lparr>year = y, month = 1, day = 1\<rparr>
               \<lparr>year = 2024, month = 3, day = 10\<rparr>
             = Inr (\<lparr>year = 2025, month = 1, day = 1\<rparr>, 297)
         \<and> this_year_birthday \<lparr>year = y, month = 12, day = 25\<rparr>
               \<lparr>year = 2024, month = 3, day = 10\<rparr>
             = Inr (\<lparr>year = 2024, month = 12, day = 25\<rparr>, 290)"
proof (intro conjI)
  let ?next = "if date_less (b\<lparr>year := year today\<rparr>) today
               then b\<lparr>year := year today + 1\<rparr> else b\<lparr>year := year today\<rparr>"
  have r: "this_year_birthday b today = Inr (?next, toordinal ?next - toordinal today)"
    using assms by (rule this_year_birthday_result)
  have n: "0 \<le> toordinal ?next - toordinal today"
    using assms by (rule days_left_nonneg(1))
  have z: "(toordinal ?next - toordinal today = 0)
             \<longleftrightarrow> (month b = month today \<and> day b = day today)"
    using assms by (rule days_left_nonneg(2))
  show "\<exists>next days_left.
            this_year_birthday b today = Inr (next, days_left)
            \<and> next = (if date_less (b\<lparr>year := year today\<rparr>) today
                       then b\<lparr>year := year today + 1\<rparr> else b\<lparr>year := year today\<rparr>)
            \<and> days_left = toordinal next - toordinal today
            \<and> 0 \<le> days_left
            \<and> (days_left = 0 \<longleftrightarrow> month b = month today \<and> day b = day today)"
    by (rule exI [of _ ?next], rule exI [of _ "toordinal ?next - toordinal today"])
       (use r n z in blast)
  show "this_year_birthday \<lparr>year = y, month = 1, day = 1\<rparr>
               \<lparr>year = 2024, month = 3, day = 10\<rparr>
             = Inr (\<lparr>year = 2025, month = 1, day = 1\<rparr>, 297)"
    by (simp add: this_year_birthday_def replace_year_def valid_date_def days_in_month_def
          date_less_def toordinal_def days_before_year_def days_before_month_def is_leap_def)
  show "this_year_birthday \<lparr>year = y, month = 12, day = 25\<rparr>
               \<lparr>year = 2024, month = 3, day = 10\<rparr>
             = Inr (\<lparr>year = 2024, month = 12, day = 25\<rparr>, 290)"
    by (simp add: this_year_birthday_def replace_year_def valid_date_def days_in_month_def
          date_less_def toordinal_def days_before_year_def days_before_month_def is_leap_def)
qed

theorem next_occurrence_when_constructible_witness:
  "valid_date 2024 3 10 \<and> valid_date 2024 1 1 \<and> valid_date 2025 1 1
   \<and> (\<exists>next days_left.
         this_year_birthday \<lparr>year = 1990, month = 1, day = 1\<rparr>
             \<lparr>year = 2024, month = 3, day = 10\<rparr> = Inr (next, days_left)
         \<and> next = \<lparr>year = 2025, month = 1, day = 1\<rparr>
         \<and> 0 \<le> days_left)"
proof -
  let ?b = "\<lparr>year = 1990, month = 1, day = 1\<rparr>"
  let ?t = "\<lparr>year = 2024, month = 3, day = 10\<rparr>"
  have v1: "valid_date 2024 3 10" and v2: "valid_date 2024 1 1" and v3: "valid_date 2025 1 1"
    by (simp_all add: valid_date_def days_in_month_def)
  have h1: "valid_date (year ?t) (month ?t) (day ?t)" using v1 by simp
  have h2: "valid_date (year ?t) (month ?b) (day ?b)" using v2 by simp
  have h3: "date_less (?b\<lparr>year := year ?t\<rparr>) ?t \<longrightarrow> valid_date (year ?t + 1) (month ?b) (day ?b)"
    using v3 by simp
  have l: "date_less (?b\<lparr>year := year ?t\<rparr>) ?t" by (simp add: date_less_def)
  from next_occurrence_when_constructible [OF h1 h2 h3, THEN conjunct1]
  obtain nxt dl where "this_year_birthday ?b ?t = Inr (nxt, dl)"
    and "nxt = (if date_less (?b\<lparr>year := year ?t\<rparr>) ?t
                then ?b\<lparr>year := year ?t + 1\<rparr> else ?b\<lparr>year := year ?t\<rparr>)"
    and "0 \<le> dl" by blast
  with l have "this_year_birthday ?b ?t = Inr (nxt, dl) \<and> nxt = \<lparr>year = 2025, month = 1, day = 1\<rparr>
      \<and> 0 \<le> dl" by simp
  then have "\<exists>next days_left. this_year_birthday ?b ?t = Inr (next, days_left)
         \<and> next = \<lparr>year = 2025, month = 1, day = 1\<rparr> \<and> 0 \<le> days_left" by blast
  with v1 v2 v3 show ?thesis by blast
qed

section \<open>Properties of the postcard deadline\<close>


lemma date_add_cases:
  "(\<exists>e. date_add d n = Inl e \<and> \<not> (1 \<le> d + n \<and> d + n \<le> date_max_ordinal))
   \<or> (date_add d n = Inr (d + n) \<and> 1 \<le> d + n \<and> d + n \<le> date_max_ordinal)"
  by (simp add: date_add_def)

lemma scan_total: "\<exists>r. next_business_scan hs d = Some r"
proof (induction "nat (date_max_ordinal + 1 - d)" arbitrary: d rule: less_induct)
  case less
  show ?case
  proof (cases "non_business hs d \<and> 1 \<le> d + 1 \<and> d + 1 \<le> date_max_ordinal")
    case True
    then have "nat (date_max_ordinal + 1 - (d + 1)) < nat (date_max_ordinal + 1 - d)" by simp
    from less [OF this] obtain r where "next_business_scan hs (d + 1) = Some r" by blast
    with True show ?thesis
      by (subst next_business_scan.simps) (simp add: date_add_def)
  next
    case False
    then show ?thesis
      by (subst next_business_scan.simps) (auto simp: date_add_def)
  qed
qed

lemma scan_result:
  "next_business_scan hs d = Some (Inr x) \<Longrightarrow>
     d \<le> x \<and> \<not> non_business hs x \<and> (\<forall>y. d \<le> y \<and> y < x \<longrightarrow> non_business hs y)"
proof (induction "nat (date_max_ordinal + 1 - d)" arbitrary: d rule: less_induct)
  case less
  show ?case
  proof (cases "non_business hs d")
    case False
    with less.prems have "x = d"
      by (subst (asm) next_business_scan.simps) simp
    with False show ?thesis by auto
  next
    case True
    with less.prems have r: "1 \<le> d + 1 \<and> d + 1 \<le> date_max_ordinal"
      and n: "next_business_scan hs (d + 1) = Some (Inr x)"
      by (subst (asm) next_business_scan.simps, simp add: date_add_def split: if_splits)+
    from r have "nat (date_max_ordinal + 1 - (d + 1)) < nat (date_max_ordinal + 1 - d)" by simp
    from less.hyps [OF this n]
    have ih: "d + 1 \<le> x" "\<not> non_business hs x" "\<forall>y. d + 1 \<le> y \<and> y < x \<longrightarrow> non_business hs y"
      by simp_all
    have "\<forall>y. d \<le> y \<and> y < x \<longrightarrow> non_business hs y"
    proof (intro allI impI)
      fix y assume "d \<le> y \<and> y < x"
      then have "y = d \<or> (d + 1 \<le> y \<and> y < x)" by auto
      with True ih(3) show "non_business hs y" by auto
    qed
    with ih show ?thesis by simp
  qed
qed

lemma scan_exists:
  "\<not> non_business hs x \<Longrightarrow> d \<le> x \<Longrightarrow> x \<le> date_max_ordinal \<Longrightarrow> 0 \<le> d \<Longrightarrow>
     \<exists>x'. next_business_scan hs d = Some (Inr x') \<and> x' \<le> x"
proof (induction "nat (x - d)" arbitrary: d rule: less_induct)
  case less
  show ?case
  proof (cases "non_business hs d")
    case False
    then have "next_business_scan hs d = Some (Inr d)"
      by (subst next_business_scan.simps) simp
    with less.prems show ?thesis by simp
  next
    case True
    with less.prems(1,2) have lt: "d < x" by (cases "d = x") auto
    then have m: "nat (x - (d + 1)) < nat (x - d)" by simp
    from lt less.prems have "\<exists>x'. next_business_scan hs (d + 1) = Some (Inr x') \<and> x' \<le> x"
      by (intro less.hyps [OF m]) simp_all
    moreover have "date_add d 1 = Inr (d + 1)"
      using lt less.prems by (simp add: date_add_def)
    ultimately show ?thesis using True
      by (subst next_business_scan.simps) simp
  qed
qed


lemma adjust_total: "\<exists>r. send_date_adjust hs d = Some r"
proof (induction "nat d" arbitrary: d rule: less_induct)
  case less
  show ?case
  proof (cases "non_business hs d \<and> 1 \<le> d - 1 \<and> d - 1 \<le> date_max_ordinal")
    case True
    then have "nat (d - 1) < nat d" by simp
    from less [OF this] obtain r where "send_date_adjust hs (d - 1) = Some r" by blast
    with True show ?thesis
      by (subst send_date_adjust.simps) (simp add: date_add_def)
  next
    case False
    then show ?thesis
      by (subst send_date_adjust.simps) (auto simp: date_add_def)
  qed
qed

lemma adjust_result:
  "send_date_adjust hs d = Some (Inr x) \<Longrightarrow> x \<le> d \<and> \<not> non_business hs x"
proof (induction "nat d" arbitrary: d rule: less_induct)
  case less
  show ?case
  proof (cases "non_business hs d")
    case False
    with less.prems have "x = d"
      by (subst (asm) send_date_adjust.simps) simp
    with False show ?thesis by simp
  next
    case True
    with less.prems have r: "1 \<le> d - 1 \<and> d - 1 \<le> date_max_ordinal"
      and n: "send_date_adjust hs (d - 1) = Some (Inr x)"
      by (subst (asm) send_date_adjust.simps, simp add: date_add_def split: if_splits)+
    from r have "nat (d - 1) < nat d" by simp
    from less.hyps [OF this n] show ?thesis by simp
  qed
qed

lemma adjust_exists:
  "\<not> non_business hs x \<Longrightarrow> x \<le> d \<Longrightarrow> 1 \<le> x \<Longrightarrow> d \<le> date_max_ordinal + 1 \<Longrightarrow>
     \<exists>x'. send_date_adjust hs d = Some (Inr x') \<and> x \<le> x'"
proof (induction "nat (d - x)" arbitrary: d rule: less_induct)
  case less
  show ?case
  proof (cases "non_business hs d")
    case False
    then have "send_date_adjust hs d = Some (Inr d)"
      by (subst send_date_adjust.simps) simp
    with less.prems show ?thesis by simp
  next
    case True
    with less.prems(1,2) have lt: "x < d" by (cases "d = x") auto
    then have m: "nat (d - 1 - x) < nat (d - x)" by simp
    from lt less.prems have "\<exists>x'. send_date_adjust hs (d - 1) = Some (Inr x') \<and> x \<le> x'"
      by (intro less.hyps [OF m]) simp_all
    moreover have "date_add d (- 1) = Inr (d - 1)"
      using lt less.prems by (simp add: date_add_def)
    ultimately show ?thesis using True
      by (subst send_date_adjust.simps) simp
  qed
qed

lemma gnbd_total: "\<exists>r. get_next_business_day d hs = Some r"
  using scan_total [of hs "d + 1"]
  by (auto simp: get_next_business_day_def date_add_def)

lemma gnbd_result:
  assumes "get_next_business_day d hs = Some (Inr x)"
  shows "d < x" and "\<not> non_business hs x" and "\<forall>y. d < y \<and> y < x \<longrightarrow> non_business hs y"
    and "1 \<le> d + 1" and "d + 1 \<le> date_max_ordinal"
proof -
  from assms have r: "1 \<le> d + 1 \<and> d + 1 \<le> date_max_ordinal"
    and n: "next_business_scan hs (d + 1) = Some (Inr x)"
    by (simp_all add: get_next_business_day_def date_add_def split: if_splits)
  from r show "1 \<le> d + 1" and "d + 1 \<le> date_max_ordinal" by simp_all
  from scan_result [OF n] show "d < x" and "\<not> non_business hs x" by simp_all
  from scan_result [OF n] show "\<forall>y. d < y \<and> y < x \<longrightarrow> non_business hs y" by auto
qed

lemma gnbd_exists:
  assumes "\<not> non_business hs x" and "d < x" and "x \<le> date_max_ordinal" and "0 \<le> d"
  shows "\<exists>x'. get_next_business_day d hs = Some (Inr x') \<and> x' \<le> x"
proof -
  from assms have "date_add d 1 = Inr (d + 1)" by (simp add: date_add_def)
  moreover from assms have "\<exists>x'. next_business_scan hs (d + 1) = Some (Inr x') \<and> x' \<le> x"
    by (intro scan_exists) simp_all
  ultimately show ?thesis by (simp add: get_next_business_day_def)
qed

lemma gnbd_previous:
  assumes "\<not> non_business hs s" and "1 \<le> s - 1" and "s \<le> date_max_ordinal"
  shows "get_next_business_day (s - 1) hs = Some (Inr s)"
proof -
  from assms have "date_add (s - 1) 1 = Inr s" by (simp add: date_add_def)
  moreover from assms(1) have "next_business_scan hs s = Some (Inr s)"
    by (subst next_business_scan.simps) simp
  ultimately show ?thesis by (simp add: get_next_business_day_def)
qed

lemma retreat_total: "\<exists>r. send_date_retreat hs send delivery = Some r"
proof (induction "nat send" arbitrary: send delivery rule: less_induct)
  case less
  show ?case
  proof (cases "delivery - send > 4 \<and> 1 \<le> send - 1 \<and> send - 1 \<le> date_max_ordinal")
    case True
    then have a: "date_add send (- 1) = Inr (send - 1)" by (simp add: date_add_def)
    from True have m: "nat (send - 1) < nat send" by simp
    obtain r where g: "get_next_business_day (send - 1) hs = Some r"
      using gnbd_total by blast
    show ?thesis
    proof (cases r)
      case (Inl e)
      with True a g show ?thesis
        by (subst send_date_retreat.simps) simp
    next
      case (Inr d)
      from less [OF m, of d] obtain r' where "send_date_retreat hs (send - 1) d = Some r'"
        by blast
      with True a g Inr show ?thesis
        by (subst send_date_retreat.simps) simp
    qed
  next
    case False
    then show ?thesis
      by (subst send_date_retreat.simps) (auto simp: date_add_def)
  qed
qed

lemma retreat_one_step:
  assumes b: "\<not> non_business hs s0" and g: "get_next_business_day s0 hs = Some (Inr del)"
  shows "send_date_retreat hs s0 del =
           (if del - s0 > 4
            then (if 1 \<le> s0 - 1 then Some (Inr (s0 - 1))
                  else Some (Inl (OverflowError ''date value out of range'')))
            else Some (Inr s0))"
proof (cases "del - s0 > 4")
  case False
  then show ?thesis by (subst send_date_retreat.simps) simp
next
  case True
  from gnbd_result(5) [OF g] have up: "s0 \<le> date_max_ordinal" by simp
  show ?thesis
  proof (cases "1 \<le> s0 - 1")
    case False
    then have "date_add s0 (- 1) = Inl (OverflowError ''date value out of range'')"
      by (simp add: date_add_def)
    with True False show ?thesis by (subst send_date_retreat.simps) simp
  next
    case low: True
    with up have a: "date_add s0 (- 1) = Inr (s0 - 1)" by (simp add: date_add_def)
    have p: "get_next_business_day (s0 - 1) hs = Some (Inr s0)"
      using b low up by (rule gnbd_previous)
    have l: "send_date_retreat hs (s0 - 1) s0 = Some (Inr (s0 - 1))"
      by (subst send_date_retreat.simps) simp
    from True low a p l show ?thesis by (subst send_date_retreat.simps) simp
  qed
qed

lemma gpsd_total: "\<exists>r. get_postcard_send_date d hs = Some r"
proof -
  let ?a = "date_add d (- delivery_schedule (weekday d))"
  show ?thesis
  proof (cases ?a)
    case (Inl e)
    then show ?thesis by (simp add: get_postcard_send_date_def)
  next
    case (Inr a)
    obtain r1 where r1: "send_date_adjust hs a = Some r1" using adjust_total by blast
    show ?thesis
    proof (cases r1)
      case (Inl e)
      with Inr r1 show ?thesis by (simp add: get_postcard_send_date_def)
    next
      case s0: (Inr s0)
      obtain r2 where r2: "get_next_business_day s0 hs = Some r2" using gnbd_total by blast
      show ?thesis
      proof (cases r2)
        case (Inl e)
        with Inr r1 s0 r2 show ?thesis by (simp add: get_postcard_send_date_def)
      next
        case del: (Inr del)
        obtain r3 where "send_date_retreat hs s0 del = Some r3" using retreat_total by blast
        with Inr r1 s0 r2 del show ?thesis by (simp add: get_postcard_send_date_def)
      qed
    qed
  qed
qed



lemma gpsd_returns:
  assumes ng: "no_long_gap hs" and lo: "9 \<le> d" and hi: "d + 4 \<le> date_max_ordinal"
  shows "\<exists>s. get_postcard_send_date d hs = Some (Inr s)"
proof -
  define a where "a = d - delivery_schedule (weekday d)"
  have ds: "1 \<le> delivery_schedule (weekday d)" "delivery_schedule (weekday d) \<le> 3"
    by (simp_all add: delivery_schedule_def)
  with lo hi have ar: "d - 3 \<le> a" "a \<le> d - 1" by (simp_all add: a_def)
  with lo hi have a: "date_add d (- delivery_schedule (weekday d)) = Inr a"
    by (simp add: date_add_def a_def)
  from ng obtain k where k: "k \<in> {0..4}" "\<not> non_business hs (a - 4 + k)"
    unfolding no_long_gap_def by blast
  have "\<exists>x'. send_date_adjust hs a = Some (Inr x') \<and> a - 4 + k \<le> x'"
    using k(2) by (rule adjust_exists) (use k(1) ar lo hi in simp_all)
  then obtain s0 where s0: "send_date_adjust hs a = Some (Inr s0)" and s0l: "a - 4 + k \<le> s0"
    by blast
  from adjust_result [OF s0] have s0u: "s0 \<le> a" and b0: "\<not> non_business hs s0" by simp_all
  from ng obtain j where j: "j \<in> {0..4}" "\<not> non_business hs (s0 + 1 + j)"
    unfolding no_long_gap_def by blast
  have "\<exists>x'. get_next_business_day s0 hs = Some (Inr x') \<and> x' \<le> s0 + 1 + j"
    using j(2) by (rule gnbd_exists) (use j(1) k(1) s0l s0u ar lo hi in simp_all)
  then obtain del where del: "get_next_business_day s0 hs = Some (Inr del)" by blast
  have low: "1 \<le> s0 - 1" using s0l k(1) ar lo by simp
  from retreat_one_step [OF b0 del] low
  have "\<exists>s. send_date_retreat hs s0 del = Some (Inr s)" by simp
  with a s0 del show ?thesis
    by (simp add: get_postcard_send_date_def a_def)
qed

lemma weekend_then_monday:
  "weekday x < 5 \<or> (weekday x = 5 \<and> weekday (x + 2) = 0) \<or> (weekday x = 6 \<and> weekday (x + 1) = 0)"
  unfolding weekday_def by presburger


lemma christmas_2025_business:
  "weekday x \<le> 2 \<Longrightarrow> \<not> non_business christmas_2025 x"
  by (auto simp: non_business_def christmas_2025_def weekday_def)

lemma christmas_2025_no_long_gap: "no_long_gap christmas_2025"
  unfolding no_long_gap_def
proof
  fix x :: int
  consider "x = 739610" | "x = 739611" | "x \<noteq> 739610 \<and> x \<noteq> 739611" by blast
  then show "\<exists>k\<in>{0..4}. \<not> non_business christmas_2025 (x + k)"
  proof cases
    case 1
    have "\<not> non_business christmas_2025 (x + 4)"
      by (rule christmas_2025_business) (simp add: 1 weekday_def)
    then show ?thesis by (intro bexI [of _ 4]) simp_all
  next
    case 2
    have "\<not> non_business christmas_2025 (x + 3)"
      by (rule christmas_2025_business) (simp add: 2 weekday_def)
    then show ?thesis by (intro bexI [of _ 3]) simp_all
  next
    case 3
    from weekend_then_monday [of x] show ?thesis
    proof (elim disjE conjE)
      assume "weekday x < 5"
      with 3 have "\<not> non_business christmas_2025 (x + 0)"
        by (simp add: non_business_def christmas_2025_def)
      then show ?thesis by (intro bexI [of _ 0]) simp_all
    next
      assume "weekday (x + 2) = 0"
      then have "\<not> non_business christmas_2025 (x + 2)"
        by (intro christmas_2025_business) simp
      then show ?thesis by (intro bexI [of _ 2]) simp_all
    next
      assume "weekday (x + 1) = 0"
      then have "\<not> non_business christmas_2025 (x + 1)"
        by (intro christmas_2025_business) simp
      then show ?thesis by (intro bexI [of _ 1]) simp_all
    qed
  qed
qed





text \<open>
  Claim C9. Under the precondition that the calendar never has 5 or more consecutive
  non-business days, the retreat loop returns from every send date and delivery date,
  and the whole computation returns for every occurrence date (a value or, at the ends
  of the date range, an OverflowError); for an occurrence date at least 8 days after
  0001-01-01 and at least 4 days before 9999-12-31 it returns a send date.
\<close>

theorem send_date_retreat_terminates:
  assumes "no_long_gap nl_holidays"
  shows "(\<exists>r. send_date_retreat nl_holidays send_date delivery_date = Some r)
         \<and> (\<exists>r. get_postcard_send_date birthday_date nl_holidays = Some r)
         \<and> (9 \<le> birthday_date \<and> birthday_date + 4 \<le> date_max_ordinal \<longrightarrow>
              (\<exists>s. get_postcard_send_date birthday_date nl_holidays = Some (Inr s)))"
proof (intro conjI impI)
  show "\<exists>r. send_date_retreat nl_holidays send_date delivery_date = Some r"
    by (rule retreat_total)
  show "\<exists>r. get_postcard_send_date birthday_date nl_holidays = Some r"
    by (rule gpsd_total)
  assume "9 \<le> birthday_date \<and> birthday_date + 4 \<le> date_max_ordinal"
  then show "\<exists>s. get_postcard_send_date birthday_date nl_holidays = Some (Inr s)"
    using gpsd_returns [OF assms] by blast
qed

theorem send_date_retreat_terminates_witness:
  "no_long_gap christmas_2025
   \<and> (\<exists>r. send_date_retreat christmas_2025 739609 739614 = Some r)
   \<and> (\<exists>s. get_postcard_send_date 739614 christmas_2025 = Some (Inr s))"
proof -
  note g = christmas_2025_no_long_gap
  note t = send_date_retreat_terminates [OF g, of 739609 739614 739614]
  have r: "9 \<le> (739614::int) \<and> 739614 + 4 \<le> date_max_ordinal"
    by (simp add: date_max_ordinal_def)
  show ?thesis
    by (rule conjI [OF g conjI [OF t [THEN conjunct1]
          t [THEN conjunct2, THEN conjunct2, THEN mp, OF r]]])
qed

end
